theory Spec2Isabelle
  imports Main "HOL-Library.AList"
begin

section \<open>Store values and JavaScript objects\<close>

text \<open>
  The entity store (\<^verbatim>\<open>src/unnamed/part_000\<close>) is a TypeScript class hierarchy that
  compares objects by reference (\<^verbatim>\<open>===\<close>) as well as by structure.  Every object and
  array therefore carries the address at which it was allocated; two values are identical
  when they are the same primitive or carry the same address.  A number is an integer
  (no rounding) or \<^verbatim>\<open>NaN\<close>, the one value that is not identical to itself.  An object's
  own properties are an association list in insertion order, which is the order
  \<^verbatim>\<open>Object.keys\<close> yields for keys that are not canonical array indices; reading a
  property that is not an own property gives \<^verbatim>\<open>undefined\<close>, as it does for the
  prototype-less objects the store creates for its records.
\<close>

type_synonym addr = nat

datatype val =
    Undefined
  | Null
  | Bool bool
  | Num int
  | NaN
  | Str string
  | Arr addr "val list"
  | Obj addr "(string \<times> val) list"

type_synonym props = "(string \<times> val) list"

text \<open>A \<^verbatim>\<open>StoreObject\<close>: the address of the record and its fields.\<close>

type_synonym store_object = "addr \<times> props"

definition hasOwn :: "(string \<times> 'a) list \<Rightarrow> string \<Rightarrow> bool" where
  "hasOwn ps k = (map_of ps k \<noteq> None)"

text \<open>\<^verbatim>\<open>obj[k]\<close>: reading a property that is not there gives \<^verbatim>\<open>undefined\<close>.\<close>

definition field :: "props \<Rightarrow> string \<Rightarrow> val" where
  "field ps k = (case map_of ps k of None \<Rightarrow> Undefined | Some v \<Rightarrow> v)"

definition keys :: "(string \<times> 'a) list \<Rightarrow> string list" where
  "keys ps = map fst ps"

text \<open>\<^verbatim>\<open>set[k] = 1\<close> on an object used as a set of keys.\<close>

definition addKey :: "string \<Rightarrow> string list \<Rightarrow> string list" where
  "addKey k ks = (if k \<in> set ks then ks else ks @ [k])"

text \<open>Object spread \<^verbatim>\<open>{...base, ...over}\<close>.\<close>

definition spread :: "(string \<times> 'a) list \<Rightarrow> (string \<times> 'a) list \<Rightarrow> (string \<times> 'a) list" where
  "spread base over = foldl (\<lambda>acc k. AList.update k (the (map_of over k)) acc) base (keys over)"

text \<open>Strict equality \<^verbatim>\<open>===\<close>.\<close>

fun ident :: "val \<Rightarrow> val \<Rightarrow> bool" where
  "ident (Obj a _) (Obj b _) = (a = b)"
| "ident (Arr a _) (Arr b _) = (a = b)"
| "ident NaN _ = False"
| "ident _ NaN = False"
| "ident (Obj _ _) _ = False"
| "ident (Arr _ _) _ = False"
| "ident _ (Obj _ _) = False"
| "ident _ (Arr _ _) = False"
| "ident x y = (x = y)"

fun truthy :: "val \<Rightarrow> bool" where
  "truthy Undefined = False"
| "truthy Null = False"
| "truthy (Bool b) = b"
| "truthy (Num n) = (n \<noteq> 0)"
| "truthy NaN = False"
| "truthy (Str s) = (s \<noteq> [])"
| "truthy (Arr _ _) = True"
| "truthy (Obj _ _) = True"

text \<open>
  Modelled from the spec: \<^verbatim>\<open>isReference\<close> and \<^verbatim>\<open>storeValueIsStoreObject\<close> are imported
  from modules that are not part of the sources.  A Reference is "a tagged value carrying
  only an entity id": an object whose \<^verbatim>\<open>__ref\<close> property is a string.  A store object is
  an object that is neither a Reference nor an array.
\<close>

fun isReference :: "val \<Rightarrow> bool" where
  "isReference (Obj _ ps) = (case map_of ps ''__ref'' of Some (Str _) \<Rightarrow> True | _ \<Rightarrow> False)"
| "isReference _ = False"

fun refId :: "val \<Rightarrow> string" where
  "refId (Obj _ ps) = (case map_of ps ''__ref'' of Some (Str s) \<Rightarrow> s | _ \<Rightarrow> [])"
| "refId _ = []"

fun storeValueIsStoreObject :: "val \<Rightarrow> bool" where
  "storeValueIsStoreObject (Obj a ps) = (\<not> isReference (Obj a ps))"
| "storeValueIsStoreObject _ = False"

text \<open>
  Modelled from the spec: deep equality (\<^verbatim>\<open>equal\<close> of the external equality library) is
  a parameter of the model; this is one instance, used where a concrete function is
  needed: structural equality that ignores addresses and the order of an object's keys.
\<close>

function (sequential) deep_equal :: "val \<Rightarrow> val \<Rightarrow> bool" where
  "deep_equal (Obj _ ps) (Obj _ qs) =
     (length ps = length qs \<and>
      list_all (\<lambda>kv. case map_of qs (fst kv) of None \<Rightarrow> False | Some w \<Rightarrow> deep_equal (snd kv) w) ps)"
| "deep_equal (Arr _ xs) (Arr _ ys) =
     (length xs = length ys \<and> list_all (\<lambda>xy. deep_equal (fst xy) (snd xy)) (zip xs ys))"
| "deep_equal (Obj _ _) _ = False"
| "deep_equal (Arr _ _) _ = False"
| "deep_equal _ (Obj _ _) = False"
| "deep_equal _ (Arr _ _) = False"
| "deep_equal x y = (x = y)"
  by pat_completeness auto
termination
proof (relation "measure (\<lambda>(x, y). size x)")
  fix a b :: addr and ps qs :: props and kv :: "string \<times> val" and w :: val
  assume "kv \<in> set ps"
  moreover have "size (snd kv) < size_prod (\<lambda>x. 0) size kv"
    by (cases kv) simp
  ultimately have "size (snd kv) < size_list (size_prod (\<lambda>x. 0) size) ps"
    by (rule size_list_estimation)
  then show "((snd kv, w), Obj a ps, Obj b qs) \<in> measure (\<lambda>(x, y). size x)"
    by simp
next
  fix a b :: addr and xs ys :: "val list" and xy :: "val \<times> val"
  assume "xy \<in> set (zip xs ys)"
  then have "fst xy \<in> set xs"
    using set_zip_leftD[of "fst xy" "snd xy" xs ys] by simp
  then have "size (fst xy) \<le> size_list size xs"
    by (rule size_list_estimation') simp
  then show "((fst xy, snd xy), Arr a xs, Arr b ys) \<in> measure (\<lambda>(x, y). size x)"
    by (simp add: case_prod_beta)
qed simp

section \<open>Dependency groups\<close>

text \<open>
  A \<^verbatim>\<open>CacheGroup\<close> wraps a dependency function \<^verbatim>\<open>d\<close> of the external reactive library,
  present exactly when caching is enabled.  The model records every call made to it:
  \<open>Depended g key\<close> for \<^verbatim>\<open>d(key)\<close> and \<open>Dirtied g key\<close> for \<^verbatim>\<open>d.dirty(key)\<close>, where
  \<open>g\<close> names the group that owns \<^verbatim>\<open>d\<close>.  \<open>Dropped\<close> records a call of the policies'
  \<^verbatim>\<open>dropField\<close> hook with the typename, the object and the field name.
\<close>

datatype event =
    Depended nat string
  | Dirtied nat string
  | Dropped val val string

datatype cache_group = CacheGroup (gid: nat) (caching: bool) (parent: "cache_group option")

definition makeDepKey :: "string \<Rightarrow> string \<Rightarrow> string" where
  "makeDepKey dataId storeFieldName = storeFieldName @ ''#'' @ dataId"

fun depend :: "(string \<Rightarrow> string) \<Rightarrow> cache_group \<Rightarrow> string \<Rightarrow> string \<Rightarrow> event list" where
  "depend fieldNameOf (CacheGroup g c p) dataId storeFieldName =
     (if c then
        [Depended g (makeDepKey dataId storeFieldName)]
        @ (if fieldNameOf storeFieldName \<noteq> storeFieldName
           then [Depended g (makeDepKey dataId (fieldNameOf storeFieldName))] else [])
        @ (case p of None \<Rightarrow> [] | Some q \<Rightarrow> depend fieldNameOf q dataId storeFieldName)
      else [])"

fun dirty :: "cache_group \<Rightarrow> string \<Rightarrow> string \<Rightarrow> event list" where
  "dirty (CacheGroup g c p) dataId storeFieldName =
     (if c then [Dirtied g (makeDepKey dataId storeFieldName)] else [])"

section \<open>Policies and the layered store\<close>

text \<open>
  What a call can throw: the failed \<^verbatim>\<open>invariant\<close> of \<^verbatim>\<open>merge\<close> with its message, the
  \<^verbatim>\<open>TypeError\<close> of the runtime, and whatever value a function of the caller throws.
\<close>

datatype error = InvariantViolation string | TypeError | Thrown val

text \<open>
  The \<^verbatim>\<open>Policies\<close> class, the helper \<^verbatim>\<open>fieldNameFromStoreName\<close> and the deep-equality
  function are imported from modules outside the sources, so they are parameters:
  \<open>rootTypenamesById\<close> is the table of well-known singleton root ids with their default
  typenames, \<open>hasKeyArgs\<close> and \<open>getStoreFieldName\<close> are the policy functions the store
  calls, \<open>fieldNameFromStoreName\<close> strips the serialized arguments off a store field name
  and \<open>equal\<close> is deep equality.

  The runtime is a parameter as well, as far as the store meets it: \<open>objectPrototype\<close>
  lists the members that an ordinary object inherits from \<^verbatim>\<open>Object.prototype\<close>.  The store
  meets them in \<^verbatim>\<open>modify\<close>, which reads \<^verbatim>\<open>fields[storeFieldName]\<close> from an object literal
  and calls what it finds as a modifier; so each member is given as what such a call does
  (a plain call, with no receiver, whose first argument is the field value): it throws,
  or it returns a value and the next free address.
\<close>

record policies =
  rootTypenamesById :: "(string \<times> string) list"
  hasKeyArgs :: "val \<Rightarrow> string \<Rightarrow> bool"
  getStoreFieldName :: "val \<Rightarrow> string \<Rightarrow> val \<Rightarrow> string"

type_synonym builtin = "val \<Rightarrow> addr \<Rightarrow> error + val \<times> addr"

record env =
  policies :: policies
  fieldNameFromStoreName :: "string \<Rightarrow> string"
  equal :: "val \<Rightarrow> val \<Rightarrow> bool"
  objectPrototype :: "(string \<times> builtin) list"

text \<open>
  The fields of one \<^verbatim>\<open>EntityStore\<close> instance: \<open>data\<close> maps an entity id to a record or
  to \<^verbatim>\<open>undefined\<close> (\<open>None\<close>), \<open>rootIds\<close> holds the retain counts, \<open>refs\<close> is the memo
  of \<^verbatim>\<open>findChildRefIds\<close> and \<open>group\<close> the dependency group of the instance.
\<close>

record node =
  data :: "(string \<times> store_object option) list"
  rootIds :: "(string \<times> nat) list"
  refs :: "(string \<times> string list) list"
  group :: cache_group

text \<open>
  The chain of stores.  A \<open>Layer\<close> carries its id; the replay procedure of a layer is
  used by \<^verbatim>\<open>addLayer\<close> and \<^verbatim>\<open>removeLayer\<close> only, which are not modelled.  The \<open>Stump\<close>
  is the \<^verbatim>\<open>Layer\<close> subclass that overrides \<^verbatim>\<open>merge\<close>.
\<close>

datatype store =
    Root node
  | Stump node store
  | Layer string node store

fun node_of :: "store \<Rightarrow> node" where
  "node_of (Root n) = n"
| "node_of (Stump n p) = n"
| "node_of (Layer i n p) = n"

fun with_node :: "node \<Rightarrow> store \<Rightarrow> store" where
  "with_node n (Root _) = Root n"
| "with_node n (Stump _ p) = Stump n p"
| "with_node n (Layer i _ p) = Layer i n p"

text \<open>\<^verbatim>\<open>this instanceof Layer\<close>\<close>

fun isLayer :: "store \<Rightarrow> bool" where
  "isLayer (Root _) = False"
| "isLayer (Stump _ _) = True"
| "isLayer (Layer _ _ _) = True"

text \<open>\<^verbatim>\<open>this.data[dataId]\<close>\<close>

definition entry :: "(string \<times> store_object option) list \<Rightarrow> string \<Rightarrow> store_object option" where
  "entry d dataId = (case map_of d dataId of None \<Rightarrow> None | Some r \<Rightarrow> r)"

fun toObject :: "store \<Rightarrow> (string \<times> store_object option) list" where
  "toObject (Root n) = data n"
| "toObject (Stump n p) = spread (toObject p) (data n)"
| "toObject (Layer i n p) = spread (toObject p) (data n)"

subsection \<open>Reading\<close>

text \<open>
  \<^verbatim>\<open>EntityStore.get\<close>.  The body is shared by all three classes; \<open>viaParent\<close> is what
  \<^verbatim>\<open>this.parent.get(dataId, fieldName)\<close> yields when \<^verbatim>\<open>this\<close> is a Layer, and \<open>None\<close> at
  the Root, where the method returns \<^verbatim>\<open>undefined\<close>.  A read returns its value together
  with the dependency calls it made.
\<close>

definition EntityStore_get ::
  "env \<Rightarrow> node \<Rightarrow> (val \<times> event list) option \<Rightarrow> string \<Rightarrow> string \<Rightarrow> val \<times> event list" where
  "EntityStore_get E n viaParent dataId fieldName =
     (let evs = depend (fieldNameFromStoreName E) (group n) dataId fieldName in
      case (case entry (data n) dataId of Some (a, ps) \<Rightarrow> map_of ps fieldName | None \<Rightarrow> None) of
        Some v \<Rightarrow> (v, evs)
      | None \<Rightarrow>
        (case (if fieldName = ''__typename''
               then map_of (rootTypenamesById (policies E)) dataId else None) of
           Some t \<Rightarrow> (Str t, evs)
         | None \<Rightarrow>
           (case viaParent of
              Some (v, evs') \<Rightarrow> (v, evs @ evs')
            | None \<Rightarrow> (Undefined, evs))))"

fun get :: "env \<Rightarrow> store \<Rightarrow> string \<Rightarrow> string \<Rightarrow> val \<times> event list" where
  "get E (Root n) dataId fieldName = EntityStore_get E n None dataId fieldName"
| "get E (Stump n p) dataId fieldName =
     EntityStore_get E n (Some (get E p dataId fieldName)) dataId fieldName"
| "get E (Layer i n p) dataId fieldName =
     EntityStore_get E n (Some (get E p dataId fieldName)) dataId fieldName"

text \<open>
  \<^verbatim>\<open>EntityStore.lookup\<close>.  At the Root a singleton root id without a record resolves to
  a new empty object, so the allocation counter is threaded through: the result is the
  record (or \<open>None\<close> for \<^verbatim>\<open>undefined\<close>), the next free address and the dependency calls.
\<close>

fun lookup ::
  "env \<Rightarrow> store \<Rightarrow> addr \<Rightarrow> string \<Rightarrow> bool \<Rightarrow> store_object option \<times> addr \<times> event list" where
  "lookup E (Root n) fresh dataId dependOnExistence =
     (let evs = (if dependOnExistence
                 then depend (fieldNameFromStoreName E) (group n) dataId ''__exists'' else []) in
      if hasOwn (data n) dataId then (entry (data n) dataId, fresh, evs)
      else (case map_of (rootTypenamesById (policies E)) dataId of
              Some t \<Rightarrow> if t \<noteq> [] then (Some (fresh, []), Suc fresh, evs) else (None, fresh, evs)
            | None \<Rightarrow> (None, fresh, evs)))"
| "lookup E (Stump n p) fresh dataId dependOnExistence =
     (let evs = (if dependOnExistence
                 then depend (fieldNameFromStoreName E) (group n) dataId ''__exists'' else []) in
      if hasOwn (data n) dataId then (entry (data n) dataId, fresh, evs)
      else (let (r, fresh', evs') = lookup E p fresh dataId dependOnExistence
            in (r, fresh', evs @ evs')))"
| "lookup E (Layer i n p) fresh dataId dependOnExistence =
     (let evs = (if dependOnExistence
                 then depend (fieldNameFromStoreName E) (group n) dataId ''__exists'' else []) in
      if hasOwn (data n) dataId then (entry (data n) dataId, fresh, evs)
      else (let (r, fresh', evs') = lookup E p fresh dataId dependOnExistence
            in (r, fresh', evs @ evs')))"

definition has :: "env \<Rightarrow> store \<Rightarrow> addr \<Rightarrow> string \<Rightarrow> bool \<times> addr \<times> event list" where
  "has E this fresh dataId =
     (let (r, fresh', evs) = lookup E this fresh dataId True in (r \<noteq> None, fresh', evs))"

subsection \<open>Merging\<close>

definition storeObjectReconciler :: "env \<Rightarrow> props \<Rightarrow> props \<Rightarrow> string \<Rightarrow> val" where
  "storeObjectReconciler E existingObject incomingObject storeFieldName =
     (let existingValue = field existingObject storeFieldName;
          incomingValue = field incomingObject storeFieldName
      in if equal E existingValue incomingValue then existingValue else incomingValue)"

text \<open>
  Modelled from the spec: the \<^verbatim>\<open>DeepMerger\<close> class is imported from a module outside the
  sources.  It "combines two entity records field-by-field using a reconciler": for
  every key of the source, a key the target lacks is added with the source's value, and
  on a collision of two values that are not identical the reconciler decides.  The
  target is copied (once, to a new address) before the first write, so that the result
  is the target itself exactly when nothing changed ("if the merged record differs from
  the existing one"); with no target the result is the source.  \<open>mergeKey\<close> carries
  whether the copy has been made.
\<close>

definition mergeKey ::
  "(props \<Rightarrow> props \<Rightarrow> string \<Rightarrow> val) \<Rightarrow> props \<Rightarrow> bool \<times> props \<Rightarrow> string \<Rightarrow> bool \<times> props" where
  "mergeKey reconciler source acc sourceKey =
     (let target = snd acc in
      if hasOwn target sourceKey then
        (let targetValue = field target sourceKey in
         if \<not> ident (field source sourceKey) targetValue then
           (let result = reconciler target source sourceKey in
            if \<not> ident result targetValue
            then (True, AList.update sourceKey result target)
            else acc)
         else acc)
      else (True, AList.update sourceKey (field source sourceKey) target))"

definition DeepMerger_merge ::
  "(props \<Rightarrow> props \<Rightarrow> string \<Rightarrow> val) \<Rightarrow> addr \<Rightarrow> store_object option \<Rightarrow> store_object
     \<Rightarrow> store_object \<times> addr" where
  "DeepMerger_merge reconciler fresh target source =
     (case target of
        None \<Rightarrow> (source, fresh)
      | Some (a, tps) \<Rightarrow>
          (let (copied, ps) = foldl (mergeKey reconciler (snd source)) (False, tps) (keys (snd source))
           in if copied then ((fresh, ps), Suc fresh) else ((a, ps), fresh)))"

text \<open>\<^verbatim>\<open>merged !== existing\<close> for a record and a record or \<^verbatim>\<open>undefined\<close>.\<close>

definition differs :: "store_object \<Rightarrow> store_object option \<Rightarrow> bool" where
  "differs merged existing = (case existing of None \<Rightarrow> True | Some (a, ps) \<Rightarrow> fst merged \<noteq> a)"

text \<open>The fields to dirty: one step of the loop over the incoming keys, then the whole set.\<close>

definition dirtyStep ::
  "env \<Rightarrow> store_object option \<Rightarrow> props \<Rightarrow> string list \<Rightarrow> string \<Rightarrow> string list" where
  "dirtyStep E existing merged fieldsToDirty storeFieldName =
     (if (case existing of None \<Rightarrow> True
          | Some (a, eps) \<Rightarrow> \<not> ident (field eps storeFieldName) (field merged storeFieldName))
      then
        (let fs = addKey storeFieldName fieldsToDirty;
             fieldName = fieldNameFromStoreName E storeFieldName
         in if fieldName \<noteq> storeFieldName
               \<and> \<not> hasKeyArgs (policies E) (field merged ''__typename'') fieldName
            then addKey fieldName fs else fs)
      else fieldsToDirty)"

definition fieldsToDirty ::
  "env \<Rightarrow> string \<Rightarrow> store_object option \<Rightarrow> props \<Rightarrow> props \<Rightarrow> string list" where
  "fieldsToDirty E dataId existing incoming merged =
     (let fs = foldl (dirtyStep E existing merged)
                 (if existing = None then [''__exists''] else []) (keys incoming)
      in if ''__typename'' \<in> set fs
            \<and> \<not> (case existing of None \<Rightarrow> False | Some (a, eps) \<Rightarrow> truthy (field eps ''__typename''))
            \<and> ident (case map_of (rootTypenamesById (policies E)) dataId of
                       None \<Rightarrow> Undefined | Some t \<Rightarrow> Str t)
                     (field merged ''__typename'')
         then removeAll ''__typename'' fs else fs)"

text \<open>
  The local function \<^verbatim>\<open>walk\<close> of \<^verbatim>\<open>merge\<close>: the nested fields of the existing value that
  the incoming value no longer has, children before parents.
\<close>

fun elemAt :: "val \<Rightarrow> nat \<Rightarrow> val" where
  "elemAt (Arr _ ys) i = (if i < length ys then ys ! i else Undefined)"
| "elemAt _ i = Undefined"

fun childAt :: "val \<Rightarrow> string \<Rightarrow> val" where
  "childAt (Obj a ps) k = (if storeValueIsStoreObject (Obj a ps) then field ps k else Undefined)"
| "childAt _ k = Undefined"

fun walk :: "val \<Rightarrow> val \<Rightarrow> (val \<times> string) list"
  and walkElems :: "val list \<Rightarrow> val \<Rightarrow> nat \<Rightarrow> (val \<times> string) list"
  and walkFields :: "val \<Rightarrow> props \<Rightarrow> val \<Rightarrow> (val \<times> string) list" where
  "walk (Arr a xs) inVal = (if ident (Arr a xs) inVal then [] else walkElems xs inVal 0)"
| "walk (Obj a ps) inVal =
     (if ident (Obj a ps) inVal then []
      else if storeValueIsStoreObject (Obj a ps) then walkFields (Obj a ps) ps inVal
      else [])"
| "walk Undefined inVal = []"
| "walk Null inVal = []"
| "walk (Bool b) inVal = []"
| "walk (Num n) inVal = []"
| "walk NaN inVal = []"
| "walk (Str s) inVal = []"
| "walkElems [] inVal i = []"
| "walkElems (exChild # xs) inVal i = walk exChild (elemAt inVal i) @ walkElems xs inVal (Suc i)"
| "walkFields exVal [] inVal = []"
| "walkFields exVal (kv # ps) inVal =
     (let inChild = childAt inVal (fst kv)
      in walk (snd kv) inChild
         @ (if inChild = Undefined then [(exVal, fst kv)] else [])
         @ walkFields exVal ps inVal)"

text \<open>
  The loop of \<^verbatim>\<open>merge\<close> that detects removed fields: for every incoming key it walks the
  existing and the incoming child, and where the incoming child is \<^verbatim>\<open>undefined\<close> it
  records the drop and, in the Root, deletes the key from the merged record.
\<close>

definition dropStep ::
  "bool \<Rightarrow> store_object \<Rightarrow> props \<Rightarrow> (val \<times> string) list \<times> props \<Rightarrow> string
     \<Rightarrow> (val \<times> string) list \<times> props" where
  "dropStep layer existing incoming acc storeFieldName =
     (let drops = fst acc; merged = snd acc;
          eChild = field (snd existing) storeFieldName;
          iChild = field incoming storeFieldName;
          drops1 = drops @ walk eChild iChild
      in if iChild = Undefined then
           (drops1 @ [(Obj (fst existing) (snd existing), storeFieldName)],
            if hasOwn merged storeFieldName \<and> field merged storeFieldName = Undefined \<and> \<not> layer
            then AList.delete storeFieldName merged else merged)
         else (drops1, merged))"

fun typenameOf :: "val \<Rightarrow> val" where
  "typenameOf (Obj a ps) = field ps ''__typename''"
| "typenameOf _ = Undefined"

definition dropEvents :: "(val \<times> string) list \<Rightarrow> event list" where
  "dropEvents drops = map (\<lambda>d. Dropped (typenameOf (fst d)) (fst d) (snd d)) drops"

text \<open>
  The part of \<^verbatim>\<open>EntityStore.merge\<close> after the arguments are resolved and the invariant
  has passed.  The call of \<^verbatim>\<open>this.group.assignPaths\<close> is left out: it writes the group's
  path index only, which is read by \<^verbatim>\<open>getStorage\<close> alone.
\<close>

definition mergeInto ::
  "env \<Rightarrow> store \<Rightarrow> addr \<Rightarrow> string \<Rightarrow> store_object option \<Rightarrow> store_object
     \<Rightarrow> store \<times> addr \<times> event list" where
  "mergeInto E this fresh dataId existing incoming =
     (let n = node_of this;
          (merged, fresh1) = DeepMerger_merge (storeObjectReconciler E) fresh existing incoming
      in if differs merged existing then
           (let n1 = n\<lparr>refs := AList.delete dataId (refs n)\<rparr>;
                dirtied = (if caching (group n)
                           then concat (map (dirty (group n) dataId)
                                  (fieldsToDirty E dataId existing (snd incoming) (snd merged)))
                           else []);
                (drops, mps) = (case existing of
                                  None \<Rightarrow> ([], snd merged)
                                | Some ex \<Rightarrow>
                                    foldl (dropStep (isLayer this) ex (snd incoming))
                                      ([], snd merged) (keys (snd incoming)))
            in (with_node (n1\<lparr>data := AList.update dataId (Some (fst merged, mps)) (data n1)\<rparr>) this,
                fresh1, dirtied @ dropEvents drops))
         else
           (with_node (n\<lparr>data := AList.update dataId (Some merged) (data n)\<rparr>) this, fresh1, []))"

datatype id_or_object = Id string | Object store_object

definition EntityStore_merge ::
  "env \<Rightarrow> store \<Rightarrow> addr \<Rightarrow> id_or_object \<Rightarrow> id_or_object \<Rightarrow> error + store \<times> addr \<times> event list" where
  "EntityStore_merge E this fresh older newer =
     (let (existing, dataId1, fresh1, evs1) =
            (case older of
               Id i \<Rightarrow> (let (r, fr, evs) = lookup E this fresh i False in (r, Some i, fr, evs))
             | Object ob \<Rightarrow> (Some ob, None, fresh, []));
          (incoming, dataId, fresh2, evs2) =
            (case newer of
               Id i \<Rightarrow> (let (r, fr, evs) = lookup E this fresh1 i False in (r, Some i, fr, evs))
             | Object ob \<Rightarrow> (Some ob, dataId1, fresh1, []))
      in case incoming of
           None \<Rightarrow> Inr (this, fresh2, evs1 @ evs2)
         | Some inc \<Rightarrow>
             (case dataId of
                None \<Rightarrow> Inl (InvariantViolation ''store.merge expects a string ID'')
              | Some i \<Rightarrow>
                  (let (this', fresh3, evs3) = mergeInto E this fresh2 i existing inc
                   in Inr (this', fresh3, evs1 @ evs2 @ evs3))))"

text \<open>The virtual call \<^verbatim>\<open>store.merge(older, newer)\<close>: the Stump forwards it to its parent.\<close>

fun merge ::
  "env \<Rightarrow> store \<Rightarrow> addr \<Rightarrow> id_or_object \<Rightarrow> id_or_object \<Rightarrow> error + store \<times> addr \<times> event list" where
  "merge E (Stump n p) fresh older newer =
     (case merge E p fresh older newer of
        Inl e \<Rightarrow> Inl e
      | Inr (p', fresh', evs) \<Rightarrow> Inr (Stump n p', fresh', evs))"
| "merge E (Root n) fresh older newer = EntityStore_merge E (Root n) fresh older newer"
| "merge E (Layer i n p) fresh older newer = EntityStore_merge E (Layer i n p) fresh older newer"

subsection \<open>Modifying, deleting, evicting\<close>

text \<open>
  A modifier is a function of the caller; it is modelled as a function of the field
  value, the field name and the store field name that throws, or returns a new value or
  one of the two sentinels, and that leaves the store alone.  \<open>DelModifier\<close> is the
  module's own \<^verbatim>\<open>delModifier\<close>, and \<open>Inherited\<close> is a member of \<^verbatim>\<open>Object.prototype\<close>
  that \<^verbatim>\<open>modify\<close> found in place of a modifier.  The storage handle that \<^verbatim>\<open>modify\<close>
  obtains from \<^verbatim>\<open>this.group.getStorage\<close> for the modifier is not modelled.

  The argument \<^verbatim>\<open>fields\<close> of \<^verbatim>\<open>modify\<close> is one modifier for every field (\<open>Single\<close>) or an
  ordinary object with a modifier for each of its own properties (\<open>PerField\<close>), such as the
  object literal that \<^verbatim>\<open>delete\<close> builds.
\<close>

datatype mod_result = DELETE | INVALIDATE | Value val

datatype modifier =
    DelModifier
  | Modifier "val \<Rightarrow> string \<Rightarrow> string \<Rightarrow> error + mod_result"
  | Inherited builtin

datatype modifiers = Single modifier | PerField "(string \<times> modifier) list"

text \<open>
  \<^verbatim>\<open>fields[name]\<close> for an ordinary object: an own property, or else what the object
  inherits from \<^verbatim>\<open>Object.prototype\<close>.
\<close>

definition fieldsMember :: "env \<Rightarrow> (string \<times> modifier) list \<Rightarrow> string \<Rightarrow> modifier option" where
  "fieldsMember E own name =
     (case map_of own name of
        Some m \<Rightarrow> Some m
      | None \<Rightarrow> map_option Inherited (map_of (objectPrototype E) name))"

text \<open>
  \<^verbatim>\<open>typeof fields === "function" ? fields : fields[storeFieldName] || fields[fieldName]\<close>
\<close>

definition modifierFor :: "env \<Rightarrow> modifiers \<Rightarrow> string \<Rightarrow> string \<Rightarrow> modifier option" where
  "modifierFor E fieldMods storeFieldName fieldName =
     (case fieldMods of
        Single m \<Rightarrow> Some m
      | PerField own \<Rightarrow>
          (case fieldsMember E own storeFieldName of
             Some m \<Rightarrow> Some m
           | None \<Rightarrow> fieldsMember E own fieldName))"

text \<open>
  \<^verbatim>\<open>modify === delModifier ? DELETE : modify(fieldValue, details)\<close>, with the next free
  address: the result of the modifier and the next free address after the call, or what
  the call throws.
\<close>

definition callModifier ::
  "modifier \<Rightarrow> val \<Rightarrow> string \<Rightarrow> string \<Rightarrow> addr \<Rightarrow> error + mod_result \<times> addr" where
  "callModifier m fieldValue fieldName storeFieldName fresh =
     (case m of
        DelModifier \<Rightarrow> Inr (DELETE, fresh)
      | Modifier f \<Rightarrow>
          (case f fieldValue fieldName storeFieldName of
             Inl e \<Rightarrow> Inl e
           | Inr r \<Rightarrow> Inr (r, fresh))
      | Inherited h \<Rightarrow>
          (case h fieldValue fresh of
             Inl e \<Rightarrow> Inl e
           | Inr (v, fresh1) \<Rightarrow> Inr (Value v, fresh1)))"

text \<open>
  The state of the loop of \<^verbatim>\<open>modify\<close> over the fields of the record, with the next free
  address.
\<close>

record modify_acc =
  changedFields :: props
  needToMerge :: bool
  allDeleted :: bool
  invalidated :: "event list"
  nextAddr :: addr

definition modifyStep ::
  "env \<Rightarrow> cache_group \<Rightarrow> string \<Rightarrow> modifiers \<Rightarrow> props \<Rightarrow> modify_acc \<Rightarrow> string
     \<Rightarrow> error + modify_acc" where
  "modifyStep E g dataId fieldMods storeObject acc storeFieldName =
     (let fieldName = fieldNameFromStoreName E storeFieldName;
          fieldValue = field storeObject storeFieldName
      in if fieldValue = Undefined then Inr acc
         else
           (case modifierFor E fieldMods storeFieldName fieldName of
              None \<Rightarrow> Inr (acc\<lparr>allDeleted := False\<rparr>)
            | Some m \<Rightarrow>
                (case callModifier m fieldValue fieldName storeFieldName (nextAddr acc) of
                   Inl e \<Rightarrow> Inl e
                 | Inr (newValue, fresh1) \<Rightarrow>
                     (let acc0 = acc\<lparr>nextAddr := fresh1\<rparr>;
                          (acc1, fieldValue1) =
                            (case newValue of
                               INVALIDATE \<Rightarrow>
                                 (acc0\<lparr>invalidated := invalidated acc0 @ dirty g dataId storeFieldName\<rparr>,
                                  fieldValue)
                             | _ \<Rightarrow>
                                 (let newValue1 = (case newValue of Value v \<Rightarrow> v | _ \<Rightarrow> Undefined)
                                  in if \<not> ident newValue1 fieldValue
                                     then (acc0\<lparr>changedFields :=
                                                  AList.update storeFieldName newValue1 (changedFields acc0),
                                                needToMerge := True\<rparr>, newValue1)
                                     else (acc0, fieldValue)))
                      in Inr (if fieldValue1 \<noteq> Undefined then acc1\<lparr>allDeleted := False\<rparr> else acc1)))))"

text \<open>A \<^verbatim>\<open>forEach\<close> over keys whose body updates the state of a loop; an exception ends it.\<close>

fun forEachKey :: "('a \<Rightarrow> string \<Rightarrow> error + 'a) \<Rightarrow> string list \<Rightarrow> 'a \<Rightarrow> error + 'a" where
  "forEachKey f [] acc = Inr acc"
| "forEachKey f (k # ks) acc =
     (case f acc k of
        Inl e \<Rightarrow> Inl e
      | Inr acc1 \<Rightarrow> forEachKey f ks acc1)"

definition modify ::
  "env \<Rightarrow> store \<Rightarrow> addr \<Rightarrow> string \<Rightarrow> modifiers \<Rightarrow> error + bool \<times> store \<times> addr \<times> event list" where
  "modify E this fresh dataId fieldMods =
     (let (storeObject, fresh1, evs1) = lookup E this fresh dataId False in
      case storeObject of
        None \<Rightarrow> Inr (False, this, fresh1, evs1)
      | Some (a, ps) \<Rightarrow>
          (case forEachKey (modifyStep E (group (node_of this)) dataId fieldMods ps) (keys ps)
                  \<lparr>changedFields = [], needToMerge = False, allDeleted = True, invalidated = [],
                   nextAddr = Suc fresh1\<rparr> of
             Inl e \<Rightarrow> Inl e
           | Inr acc \<Rightarrow>
               if needToMerge acc then
                 (case merge E this (nextAddr acc) (Id dataId) (Object (fresh1, changedFields acc)) of
                    Inl e \<Rightarrow> Inl e
                  | Inr (this1, fresh2, evs2) \<Rightarrow>
                      if allDeleted acc then
                        (let n = node_of this1;
                             d = (if isLayer this1 then AList.update dataId None (data n)
                                  else AList.delete dataId (data n))
                         in Inr (True, with_node (n\<lparr>data := d\<rparr>) this1, fresh2,
                                 evs1 @ invalidated acc @ evs2 @ dirty (group n) dataId ''__exists''))
                      else Inr (True, this1, fresh2, evs1 @ invalidated acc @ evs2))
               else Inr (False, this, nextAddr acc, evs1 @ invalidated acc)))"

text \<open>\<^verbatim>\<open>EntityStore.getFieldValue\<close>, for an object or a Reference.\<close>

definition getFieldValue :: "env \<Rightarrow> store \<Rightarrow> val \<Rightarrow> string \<Rightarrow> val \<times> event list" where
  "getFieldValue E this objectOrReference storeFieldName =
     (if isReference objectOrReference then get E this (refId objectOrReference) storeFieldName
      else (case objectOrReference of
              Obj a ps \<Rightarrow> (field ps storeFieldName, [])
            | v \<Rightarrow> (if truthy v then Undefined else v, [])))"

text \<open>A string that may be absent is truthy when it is there and not empty.\<close>

definition given :: "string option \<Rightarrow> bool" where
  "given s = (case s of None \<Rightarrow> False | Some x \<Rightarrow> x \<noteq> [])"

text \<open>
  \<^verbatim>\<open>EntityStore.delete\<close>; \<open>args\<close> is the optional argument object.  The modifiers it
  hands to \<^verbatim>\<open>modify\<close> are \<^verbatim>\<open>delModifier\<close> itself or the object literal
  \<^verbatim>\<open>{[storeFieldName]: delModifier}\<close>.
\<close>

definition delete ::
  "env \<Rightarrow> store \<Rightarrow> addr \<Rightarrow> string \<Rightarrow> string option \<Rightarrow> val option
     \<Rightarrow> error + bool \<times> store \<times> addr \<times> event list" where
  "delete E this fresh dataId fieldName args =
     (let (storeObject, fresh1, evs1) = lookup E this fresh dataId False in
      case storeObject of
        None \<Rightarrow> Inr (False, this, fresh1, evs1)
      | Some (a, ps) \<Rightarrow>
          (let (typename, evs2) = getFieldValue E this (Obj a ps) ''__typename'';
               storeFieldName =
                 (case args of
                    Some as \<Rightarrow>
                      if given fieldName \<and> truthy as
                      then Some (getStoreFieldName (policies E) typename (the fieldName) as)
                      else fieldName
                  | None \<Rightarrow> fieldName)
           in case modify E this fresh1 dataId
                     (if given storeFieldName then PerField [(the storeFieldName, DelModifier)]
                      else Single DelModifier) of
                Inl e \<Rightarrow> Inl e
              | Inr (r, this1, fresh2, evs3) \<Rightarrow> Inr (r, this1, fresh2, evs1 @ evs2 @ evs3)))"

text \<open>
  The number of stores below a store, its parent and the replacement of its parent.  The
  depth is the measure by which \<^verbatim>\<open>evict\<close> terminates; that proof follows the model.
\<close>

fun depth :: "store \<Rightarrow> nat" where
  "depth (Root n) = 0"
| "depth (Stump n p) = Suc (depth p)"
| "depth (Layer i n p) = Suc (depth p)"

fun parentOf :: "store \<Rightarrow> store option" where
  "parentOf (Root n) = None"
| "parentOf (Stump n p) = Some p"
| "parentOf (Layer i n p) = Some p"

fun with_parent :: "store \<Rightarrow> store \<Rightarrow> store" where
  "with_parent q (Root n) = Root n"
| "with_parent q (Stump n p) = Stump n q"
| "with_parent q (Layer i n p) = Layer i n q"

text \<open>
  \<^verbatim>\<open>EntityStore.evict\<close> with its options \<^verbatim>\<open>{id, fieldName, args}\<close>.  A Layer evicts from
  its parent as well, after its own \<^verbatim>\<open>delete\<close>.
\<close>

record evict_options =
  evict_id :: "string option"
  evict_fieldName :: "string option"
  evict_args :: "val option"

function evict ::
  "env \<Rightarrow> store \<Rightarrow> addr \<Rightarrow> evict_options \<Rightarrow> error + bool \<times> store \<times> addr \<times> event list" where
  "evict E this fresh options =
     (if given (evict_id options) then
        (let i = the (evict_id options) in
         case (if hasOwn (data (node_of this)) i
               then delete E this fresh i (evict_fieldName options) (evict_args options)
               else Inr (False, this, fresh, [])) of
           Inl e \<Rightarrow> Inl e
         | Inr (evicted1, this1, fresh1, evs1) \<Rightarrow>
             (case (case parentOf this1 of
                      None \<Rightarrow> Inr (evicted1, this1, fresh1, [])
                    | Some p \<Rightarrow>
                        (case evict E p fresh1 options of
                           Inl e \<Rightarrow> Inl e
                         | Inr (evicted, p', fresh', evs) \<Rightarrow>
                             Inr (evicted \<or> evicted1, with_parent p' this1, fresh', evs))) of
                Inl e \<Rightarrow> Inl e
              | Inr (evicted2, this2, fresh2, evs2) \<Rightarrow>
                  Inr (evicted2, this2, fresh2,
                       evs1 @ evs2
                       @ (if given (evict_fieldName options) \<or> evicted2
                          then dirty (group (node_of this2)) i
                                 (if given (evict_fieldName options)
                                  then the (evict_fieldName options) else ''__exists'')
                          else []))))
      else Inr (False, this, fresh, []))"
  by pat_completeness auto
subsection \<open>Retained roots and garbage collection\<close>

definition retain :: "store \<Rightarrow> string \<Rightarrow> nat \<times> store" where
  "retain this rootId =
     (let n = node_of this;
          c = (case map_of (rootIds n) rootId of None \<Rightarrow> 0 | Some c \<Rightarrow> c) + 1
      in (c, with_node (n\<lparr>rootIds := AList.update rootId c (rootIds n)\<rparr>) this))"

definition release :: "store \<Rightarrow> string \<Rightarrow> nat \<times> store" where
  "release this rootId =
     (let n = node_of this in
      case map_of (rootIds n) rootId of
        None \<Rightarrow> (0, this)
      | Some c \<Rightarrow>
          if c > 0 then
            (let count = c - 1
             in (count,
                 with_node (n\<lparr>rootIds := (if count = 0 then AList.delete rootId (rootIds n)
                                            else AList.update rootId count (rootIds n))\<rparr>) this))
          else (0, this))"

text \<open>\<^verbatim>\<open>keys.forEach(ids.add, ids)\<close> on a \<^verbatim>\<open>Set\<close>, kept as a list in insertion order.\<close>

definition addAll :: "string list \<Rightarrow> string list \<Rightarrow> string list" where
  "addAll ks ids = foldl (\<lambda>acc k. addKey k acc) ids ks"

fun getRootIdSet :: "env \<Rightarrow> store \<Rightarrow> string list \<Rightarrow> string list" where
  "getRootIdSet E (Root n) ids =
     addAll (keys (rootTypenamesById (policies E))) (addAll (keys (rootIds n)) ids)"
| "getRootIdSet E (Stump n p) ids = getRootIdSet E p (addAll (keys (rootIds n)) ids)"
| "getRootIdSet E (Layer i n p) ids = getRootIdSet E p (addAll (keys (rootIds n)) ids)"

text \<open>
  \<^verbatim>\<open>EntityStore.findChildRefIds\<close>.  The work set starts with \<^verbatim>\<open>this.data[dataId]\<close> and is
  visited in insertion order while it grows; the model keeps it as a queue.  (The \<^verbatim>\<open>Set\<close>
  of the source also skips an object it has met before, which changes nothing in the
  ids found.)
\<close>

fun canTraverse :: "val \<Rightarrow> bool" where
  "canTraverse (Arr _ _) = True"
| "canTraverse (Obj _ _) = True"
| "canTraverse _ = False"

fun objectValues :: "val \<Rightarrow> val list" where
  "objectValues (Arr a xs) = xs"
| "objectValues (Obj a ps) = map snd ps"
| "objectValues _ = []"

function scan :: "val list \<Rightarrow> string list \<Rightarrow> string list" where
  "scan [] found = found"
| "scan (obj # workSet) found =
     (if isReference obj then scan workSet (addKey (refId obj) found)
      else if canTraverse obj
      then scan (workSet @ filter canTraverse (objectValues obj)) found
      else scan workSet found)"
  by pat_completeness auto
termination
proof (relation "measure (\<lambda>(workSet, found). sum_list (map (\<lambda>v. Suc (size v)) workSet))")
  fix obj :: val and workSet :: "val list" and found :: "string list"
  assume "canTraverse obj"
  have vals: "sum_list (map (\<lambda>v. Suc (size v)) (filter canTraverse (map snd ps)))
                \<le> size_list (size_prod (\<lambda>x. 0) size) ps" for ps :: props
    by (induction ps) auto
  have elems: "sum_list (map (\<lambda>v. Suc (size v)) (filter canTraverse xs)) \<le> size_list size xs"
    for xs :: "val list"
    by (induction xs) auto
  have "sum_list (map (\<lambda>v. Suc (size v)) (filter canTraverse (objectValues obj))) < size obj"
    using \<open>canTraverse obj\<close> vals elems by (cases obj) (auto simp: less_Suc_eq_le)
  then show "((workSet @ filter canTraverse (objectValues obj), found), obj # workSet, found)
               \<in> measure (\<lambda>(workSet, found). sum_list (map (\<lambda>v. Suc (size v)) workSet))"
    by simp
qed auto

fun recordVal :: "store_object option \<Rightarrow> val" where
  "recordVal None = Undefined"
| "recordVal (Some (a, ps)) = Obj a ps"

definition EntityStore_findChildRefIds :: "node \<Rightarrow> string \<Rightarrow> string list \<times> node" where
  "EntityStore_findChildRefIds n dataId =
     (case map_of (refs n) dataId of
        Some found \<Rightarrow> (found, n)
      | None \<Rightarrow>
          (let found = scan [recordVal (entry (data n) dataId)] []
           in (found, n\<lparr>refs := AList.update dataId found (refs n)\<rparr>)))"

fun findChildRefIds :: "store \<Rightarrow> string \<Rightarrow> string list \<times> store" where
  "findChildRefIds (Root n) dataId =
     (let (found, n') = EntityStore_findChildRefIds n dataId in (found, Root n'))"
| "findChildRefIds (Stump n p) dataId =
     (let (fromParent, p') = findChildRefIds p dataId in
      if hasOwn (data n) dataId
      then (let (found, n') = EntityStore_findChildRefIds n dataId
            in (addAll found fromParent, Stump n' p'))
      else (fromParent, Stump n p'))"
| "findChildRefIds (Layer i n p) dataId =
     (let (fromParent, p') = findChildRefIds p dataId in
      if hasOwn (data n) dataId
      then (let (found, n') = EntityStore_findChildRefIds n dataId
            in (addAll found fromParent, Layer i n' p'))
      else (fromParent, Layer i n p'))"

text \<open>
  The marking loop of \<^verbatim>\<open>gc\<close>: \<^verbatim>\<open>ids.forEach\<close> over a \<^verbatim>\<open>Set\<close> that grows while it is
  visited.  \<open>ids\<close> is the set in insertion order and \<open>pos\<close> the position of the visit.
\<close>

function gcMark ::
  "store \<Rightarrow> (string \<times> store_object option) list \<Rightarrow> string list \<Rightarrow> nat
     \<Rightarrow> (string \<times> store_object option) list \<times> store" where
  "gcMark this snapshot ids pos =
     (if pos < length ids then
        (let i = ids ! pos in
         if hasOwn snapshot i then
           (let (found, this1) = findChildRefIds this i
            in gcMark this1 (AList.delete i snapshot) (addAll found ids) (Suc pos))
         else gcMark this snapshot ids (Suc pos))
      else (snapshot, this))"
  by pat_completeness auto
termination
proof (relation "measures [\<lambda>(this, snapshot, ids, pos). length snapshot,
                           \<lambda>(this, snapshot, ids, pos). length ids - pos]")
  fix snapshot :: "(string \<times> store_object option) list" and i :: string
    and this this1 :: store and ids found :: "string list" and pos :: nat
  assume "hasOwn snapshot i"
  then have "length (AList.delete i snapshot) < length snapshot"
    unfolding hasOwn_def AList.delete_eq
    by (induction snapshot) (auto simp: less_Suc_eq_le split: if_splits)
  then show "((this1, AList.delete i snapshot, addAll found ids, Suc pos), this, snapshot, ids, pos)
               \<in> measures [\<lambda>(this, snapshot, ids, pos). length snapshot,
                            \<lambda>(this, snapshot, ids, pos). length ids - pos]"
    by simp
qed auto

declare gcMark.simps [simp del]

fun rootOf :: "store \<Rightarrow> store" where
  "rootOf (Root n) = Root n"
| "rootOf (Stump n p) = rootOf p"
| "rootOf (Layer i n p) = rootOf p"

fun withRoot :: "store \<Rightarrow> store \<Rightarrow> store" where
  "withRoot r (Root n) = r"
| "withRoot r (Stump n p) = Stump n (withRoot r p)"
| "withRoot r (Layer i n p) = Layer i n (withRoot r p)"

text \<open>A \<^verbatim>\<open>forEach\<close> whose body changes the store; an exception ends it.\<close>

fun forEachStore ::
  "('a \<Rightarrow> store \<Rightarrow> addr \<Rightarrow> error + store \<times> addr \<times> event list) \<Rightarrow> 'a list \<Rightarrow> store \<Rightarrow> addr
     \<Rightarrow> error + store \<times> addr \<times> event list" where
  "forEachStore f [] this fresh = Inr (this, fresh, [])"
| "forEachStore f (x # xs) this fresh =
     (case f x this fresh of
        Inl e \<Rightarrow> Inl e
      | Inr (this1, fresh1, evs1) \<Rightarrow>
          (case forEachStore f xs this1 fresh1 of
             Inl e \<Rightarrow> Inl e
           | Inr (this2, fresh2, evs2) \<Rightarrow> Inr (this2, fresh2, evs1 @ evs2)))"

definition deleteEntity ::
  "env \<Rightarrow> string \<Rightarrow> store \<Rightarrow> addr \<Rightarrow> error + store \<times> addr \<times> event list" where
  "deleteEntity E dataId this fresh =
     (case delete E this fresh dataId None None of
        Inl e \<Rightarrow> Inl e
      | Inr (r, this1, fresh1, evs) \<Rightarrow> Inr (this1, fresh1, evs))"

definition gc :: "env \<Rightarrow> store \<Rightarrow> addr \<Rightarrow> error + string list \<times> store \<times> addr \<times> event list" where
  "gc E this fresh =
     (let ids = getRootIdSet E this [];
          snapshot = toObject this;
          (snapshot1, this1) = gcMark this snapshot ids 0;
          idsToRemove = keys snapshot1
      in case forEachStore (deleteEntity E) idsToRemove (rootOf this1) fresh of
           Inl e \<Rightarrow> Inl e
         | Inr (root1, fresh1, evs) \<Rightarrow> Inr (idsToRemove, withRoot root1 this1, fresh1, evs))"

subsection \<open>Replacing the contents and creating a Root\<close>

text \<open>
  A \<^verbatim>\<open>NormalizedCacheObject\<close>: the optional \<^verbatim>\<open>__META.extraRootIds\<close> and the entities.
\<close>

record normalized_cache =
  extraRootIds :: "string list option"
  entities :: "(string \<times> store_object option) list"

definition replace ::
  "env \<Rightarrow> store \<Rightarrow> addr \<Rightarrow> normalized_cache option \<Rightarrow> error + store \<times> addr \<times> event list" where
  "replace E this fresh newData =
     (case forEachStore
             (\<lambda>dataId s fr.
                if \<not> (case newData of
                         None \<Rightarrow> False
                       | Some nd \<Rightarrow> hasOwn (entities nd) dataId
                                    \<or> (dataId = ''__META'' \<and> extraRootIds nd \<noteq> None))
                then deleteEntity E dataId s fr else Inr (s, fr, []))
             (keys (data (node_of this))) this fresh of
        Inl e \<Rightarrow> Inl e
      | Inr (this1, fresh1, evs1) \<Rightarrow>
          (case newData of
             None \<Rightarrow> Inr (this1, fresh1, evs1)
           | Some nd \<Rightarrow>
               (case forEachStore
                       (\<lambda>dataId s fr. case entry (entities nd) dataId of
                                        None \<Rightarrow> Inr (s, fr, [])
                                      | Some ob \<Rightarrow> merge E s fr (Id dataId) (Object ob))
                       (keys (entities nd)) this1 fresh1 of
                  Inl e \<Rightarrow> Inl e
                | Inr (this2, fresh2, evs2) \<Rightarrow>
                    Inr (foldl (\<lambda>s rootId. snd (retain s rootId)) this2
                           (case extraRootIds nd of None \<Rightarrow> [] | Some rs \<Rightarrow> rs),
                         fresh2, evs1 @ evs2))))"

text \<open>
  The constructor of \<^verbatim>\<open>EntityStore.Root\<close> with the name \<open>g\<close> of its new dependency
  group, and the Stump it creates on top of itself.
\<close>

definition emptyNode :: "cache_group \<Rightarrow> node" where
  "emptyNode g = \<lparr>data = [], rootIds = [], refs = [], group = g\<rparr>"

definition newRoot ::
  "env \<Rightarrow> nat \<Rightarrow> bool \<Rightarrow> normalized_cache option \<Rightarrow> addr \<Rightarrow> error + store \<times> addr \<times> event list" where
  "newRoot E g resultCaching seed fresh =
     (let this = Root (emptyNode (CacheGroup g resultCaching None)) in
      case seed of
        None \<Rightarrow> Inr (this, fresh, [])
      | Some nd \<Rightarrow> replace E this fresh (Some nd))"

definition newStump :: "nat \<Rightarrow> store \<Rightarrow> store" where
  "newStump g root =
     Stump (emptyNode (CacheGroup g (caching (group (node_of root))) (Some (group (node_of root)))))
       root"

section \<open>A concrete environment\<close>

text \<open>
  Modelled from the spec: one instance of the parameters, for evaluating the model on
  concrete stores.  The bare field name is the leading identifier of a store field name
  ("a field's name, optionally suffixed with a serialized representation of its
  arguments"), the singleton roots are the three usual ones, no field has key arguments
  and deep equality is \<open>deep_equal\<close>.

  The members of \<^verbatim>\<open>Object.prototype\<close> are the twelve of the ECMAScript specification
  with its Annex B, each as the specification defines a call of it with the receiver
  \<^verbatim>\<open>undefined\<close> and the field value as first argument.  \<^verbatim>\<open>toString\<close> returns
  \<^verbatim>\<open>"[object Undefined]"\<close>; \<^verbatim>\<open>isPrototypeOf\<close> returns \<^verbatim>\<open>false\<close> for a primitive and fails
  to convert the receiver otherwise; \<^verbatim>\<open>constructor\<close> is \<^verbatim>\<open>Object\<close>, which returns an object
  as it is, a new empty object for \<^verbatim>\<open>null\<close> and a new wrapper object for any other
  primitive, modelled (as every object is) by its own enumerable properties: the
  characters of a string, none otherwise; \<^verbatim>\<open>__proto__\<close> is an accessor whose value, the
  prototype itself, is not a function; the other eight convert the receiver first.  So
  all but three throw a \<^verbatim>\<open>TypeError\<close>.
\<close>

fun decimal :: "nat \<Rightarrow> nat \<Rightarrow> string" where
  "decimal 0 n = []"
| "decimal (Suc fuel) n =
     (if n < 10 then [''0123456789'' ! n]
      else decimal fuel (n div 10) @ [''0123456789'' ! (n mod 10)])"

definition wrapperProps :: "val \<Rightarrow> props" where
  "wrapperProps v =
     (case v of
        Str s \<Rightarrow> map (\<lambda>i. (decimal (Suc i) i, Str [s ! i])) [0..<length s]
      | _ \<Rightarrow> [])"

definition throwsTypeError :: builtin where
  "throwsTypeError v fresh = Inl TypeError"

definition Object_constructor :: builtin where
  "Object_constructor v fresh =
     (case v of
        Obj a ps \<Rightarrow> Inr (v, fresh)
      | Arr a xs \<Rightarrow> Inr (v, fresh)
      | Undefined \<Rightarrow> Inr (Obj fresh [], Suc fresh)
      | Null \<Rightarrow> Inr (Obj fresh [], Suc fresh)
      | _ \<Rightarrow> Inr (Obj fresh (wrapperProps v), Suc fresh))"

definition Object_isPrototypeOf :: builtin where
  "Object_isPrototypeOf v fresh =
     (case v of
        Obj a ps \<Rightarrow> Inl TypeError
      | Arr a xs \<Rightarrow> Inl TypeError
      | _ \<Rightarrow> Inr (Bool False, fresh))"

definition Object_toString :: builtin where
  "Object_toString v fresh = Inr (Str ''[object Undefined]'', fresh)"

definition stdObjectPrototype :: "(string \<times> builtin) list" where
  "stdObjectPrototype =
     [(''constructor'', Object_constructor),
      (''__defineGetter__'', throwsTypeError),
      (''__defineSetter__'', throwsTypeError),
      (''hasOwnProperty'', throwsTypeError),
      (''__lookupGetter__'', throwsTypeError),
      (''__lookupSetter__'', throwsTypeError),
      (''isPrototypeOf'', Object_isPrototypeOf),
      (''propertyIsEnumerable'', throwsTypeError),
      (''toString'', Object_toString),
      (''valueOf'', throwsTypeError),
      (''__proto__'', throwsTypeError),
      (''toLocaleString'', throwsTypeError)]"

definition identChar :: "char \<Rightarrow> bool" where
  "identChar c = (c \<in> set ''_abcdefghijklmnopqrstuvwxyzABCDEFGHIJKLMNOPQRSTUVWXYZ0123456789'')"

definition fieldNamePrefix :: "string \<Rightarrow> string" where
  "fieldNamePrefix s =
     (case s of
        [] \<Rightarrow> s
      | c # cs \<Rightarrow> if identChar c \<and> c \<notin> set ''0123456789'' then takeWhile identChar s else s)"

definition stdPolicies :: policies where
  "stdPolicies =
     \<lparr>rootTypenamesById = [(''ROOT_QUERY'', ''Query''), (''ROOT_MUTATION'', ''Mutation''),
                           (''ROOT_SUBSCRIPTION'', ''Subscription'')],
      hasKeyArgs = (\<lambda>typename fieldName. False),
      getStoreFieldName = (\<lambda>typename fieldName args. fieldName)\<rparr>"

definition stdEnv :: env where
  "stdEnv = \<lparr>policies = stdPolicies, fieldNameFromStoreName = fieldNamePrefix, equal = deep_equal,
              objectPrototype = stdObjectPrototype\<rparr>"

text \<open>
  An empty Root with caching enabled, and the same Root under its Stump.
\<close>

definition emptyRoot :: store where
  "emptyRoot = Root (emptyNode (CacheGroup 0 True None))"

definition emptyCache :: store where
  "emptyCache = newStump 1 emptyRoot"



definition emptyRecordRoot :: store where
  "emptyRecordRoot =
     Root \<lparr>data = [(''Item:1'', Some (0, []))], rootIds = [], refs = [],
           group = CacheGroup 0 True None\<rparr>"

text \<open>
  A Root with an entity one of whose fields is \<^verbatim>\<open>NaN\<close>.
\<close>

definition nanRoot :: store where
  "nanRoot =
     Root \<lparr>data = [(''Item:1'', Some (0, [(''score'', NaN)]))], rootIds = [], refs = [],
           group = CacheGroup 0 True None\<rparr>"








text \<open>
  Two Roots with an entity one of whose fields is named like a member of
  \<^verbatim>\<open>Object.prototype\<close>.
\<close>

definition valueOfRoot :: store where
  "valueOfRoot =
     Root \<lparr>data = [(''Item:1'', Some (0, [(''name'', Str ''a''), (''valueOf'', Num 1)]))],
           rootIds = [], refs = [], group = CacheGroup 0 True None\<rparr>"

definition toStringRoot :: store where
  "toStringRoot =
     Root \<lparr>data = [(''Item:1'', Some (0, [(''name'', Str ''a''), (''toString'', Num 1)]))],
           rootIds = [], refs = [], group = CacheGroup 0 True None\<rparr>"

text \<open>
  An optimistic Layer that holds the only record for \<^verbatim>\<open>ROOT_QUERY\<close>, on the Stump of an
  empty Root; and the same chain after the eviction of \<^verbatim>\<open>ROOT_QUERY\<close>, where the Layer
  holds an undefined shadow in its place.
\<close>

definition queryLayer :: store where
  "queryLayer =
     Layer ''L1''
       \<lparr>data = [(''ROOT_QUERY'', Some (0, [(''__typename'', Str ''Query'')]))],
        rootIds = [], refs = [], group = CacheGroup 1 True (Some (CacheGroup 0 True None))\<rparr>
       emptyCache"

definition shadowedQuery :: store where
  "shadowedQuery =
     Layer ''L1''
       \<lparr>data = [(''ROOT_QUERY'', None)],
        rootIds = [], refs = [], group = CacheGroup 1 True (Some (CacheGroup 0 True None))\<rparr>
       emptyCache"

text \<open>
  The scenario of the specification: a Root seeded with a query root that refers to one
  item; \<open>gc\<close> after \<open>retain\<close> of the query root, then \<open>release\<close> and \<open>gc\<close> again.
  \<open>scenarioRoot\<close> is the Root the scenario ends with, given its retain counts.
\<close>

definition scenarioSeed :: normalized_cache where
  "scenarioSeed =
     \<lparr>extraRootIds = None,
      entities =
        [(''ROOT_QUERY'', Some (0, [(''__typename'', Str ''Query''),
                                   (''field'', Obj 1 [(''__ref'', Str ''Item:1'')])])),
         (''Item:1'', Some (2, [(''__typename'', Str ''Item''), (''name'', Str ''a'')]))]\<rparr>"

definition scenarioAfterRetain :: "error + string list \<times> store \<times> addr \<times> event list" where
  "scenarioAfterRetain =
     (case newRoot stdEnv 0 True (Some scenarioSeed) 3 of
        Inl e \<Rightarrow> Inl e
      | Inr (root, fresh, evs) \<Rightarrow> gc stdEnv (snd (retain root ''ROOT_QUERY'')) fresh)"

definition scenarioAfterRelease :: "error + string list \<times> store \<times> addr \<times> event list" where
  "scenarioAfterRelease =
     (case scenarioAfterRetain of
        Inl e \<Rightarrow> Inl e
      | Inr (removed, root, fresh, evs) \<Rightarrow> gc stdEnv (snd (release root ''ROOT_QUERY'')) fresh)"

definition removedIds :: "error + string list \<times> store \<times> addr \<times> event list \<Rightarrow> string list" where
  "removedIds r = (case r of Inl e \<Rightarrow> [] | Inr (ids, rest) \<Rightarrow> ids)"

definition scenarioRoot :: "(string \<times> nat) list \<Rightarrow> store" where
  "scenarioRoot retained =
     Root \<lparr>data = [(''ROOT_QUERY'', Some (4, [(''__typename'', Str ''Query''),
                                            (''field'', Obj 1 [(''__ref'', Str ''Item:1'')])])),
                    (''Item:1'', Some (2, [(''__typename'', Str ''Item''), (''name'', Str ''a'')]))],
           rootIds = retained,
           refs = [(''ROOT_QUERY'', [''Item:1'']), (''Item:1'', [])],
           group = CacheGroup 0 True None\<rparr>"

section \<open>Notions of the specification\<close>

text \<open>
  Some store of the chain has the key \<open>dataId\<close> in its own data; some store of the chain
  holds a record for \<open>dataId\<close>.
\<close>

fun keyAnywhere :: "store \<Rightarrow> string \<Rightarrow> bool" where
  "keyAnywhere (Root n) dataId = hasOwn (data n) dataId"
| "keyAnywhere (Stump n p) dataId = (hasOwn (data n) dataId \<or> keyAnywhere p dataId)"
| "keyAnywhere (Layer l n p) dataId = (hasOwn (data n) dataId \<or> keyAnywhere p dataId)"

fun recordAnywhere :: "store \<Rightarrow> string \<Rightarrow> bool" where
  "recordAnywhere (Root n) dataId = (entry (data n) dataId \<noteq> None)"
| "recordAnywhere (Stump n p) dataId = (entry (data n) dataId \<noteq> None \<or> recordAnywhere p dataId)"
| "recordAnywhere (Layer l n p) dataId = (entry (data n) dataId \<noteq> None \<or> recordAnywhere p dataId)"

text \<open>
  The fields of the record an id resolves to in a store, and the value of a field there
  (\<^verbatim>\<open>undefined\<close> when the id resolves to nothing).  That some field of an id has another
  value in one store than in another is how a change of the store shows.
\<close>

definition recordFields :: "env \<Rightarrow> store \<Rightarrow> string \<Rightarrow> props option" where
  "recordFields E this dataId = map_option snd (fst (lookup E this 0 dataId False))"

definition fieldValueOf :: "env \<Rightarrow> store \<Rightarrow> string \<Rightarrow> string \<Rightarrow> val" where
  "fieldValueOf E this dataId storeFieldName =
     (case recordFields E this dataId of None \<Rightarrow> Undefined | Some ps \<Rightarrow> field ps storeFieldName)"

definition fieldChanged :: "env \<Rightarrow> store \<Rightarrow> store \<Rightarrow> string \<Rightarrow> bool" where
  "fieldChanged E before after dataId =
     list_ex (\<lambda>k. fieldValueOf E before dataId k \<noteq> fieldValueOf E after dataId k)
       ((case recordFields E before dataId of None \<Rightarrow> [] | Some ps \<Rightarrow> keys ps)
        @ (case recordFields E after dataId of None \<Rightarrow> [] | Some ps \<Rightarrow> keys ps))"






text \<open>
  A record none of whose fields is \<^verbatim>\<open>NaN\<close>.
\<close>

definition noNaNField :: "props \<Rightarrow> bool" where
  "noNaNField ps = list_all (\<lambda>k. field ps k \<noteq> NaN) (keys ps)"

text \<open>
  The Stump forwards every merge to its parent and \<^verbatim>\<open>modify\<close> stores only undefined
  shadows in it, so the data of a Stump never holds a record.
\<close>

fun stumpEmpty :: "store \<Rightarrow> bool" where
  "stumpEmpty (Root n) = True"
| "stumpEmpty (Stump n p) = (list_all (\<lambda>kv. snd kv = None) (data n) \<and> stumpEmpty p)"
| "stumpEmpty (Layer l n p) = stumpEmpty p"

text \<open>
  What the modifiers make of a record, in the words of the specification.  \<open>newValueOf\<close>
  is the value a field is left with: \<^verbatim>\<open>undefined\<close> after \<^verbatim>\<open>DELETE\<close>, its own value after
  \<^verbatim>\<open>INVALIDATE\<close> or with no modifier, the returned value otherwise.  \<open>resultDiffers\<close> says
  that the modifier of a field with a defined value returned something (\<^verbatim>\<open>DELETE\<close>
  counting as \<^verbatim>\<open>undefined\<close>) that is not identical to the field's value.
  \<open>irregularCall\<close> says that what \<^verbatim>\<open>modify\<close> calls for a field with a defined value is a
  modifier of the caller that throws, or no modifier of the caller at all but a member of
  \<^verbatim>\<open>Object.prototype\<close>.
\<close>

definition newValueOf :: "env \<Rightarrow> modifiers \<Rightarrow> props \<Rightarrow> string \<Rightarrow> val" where
  "newValueOf E fieldMods ps storeFieldName =
     (let v = field ps storeFieldName; fieldName = fieldNameFromStoreName E storeFieldName in
      if v = Undefined then Undefined
      else case modifierFor E fieldMods storeFieldName fieldName of
             Some DelModifier \<Rightarrow> Undefined
           | Some (Modifier f) \<Rightarrow>
               (case f v fieldName storeFieldName of
                  Inr DELETE \<Rightarrow> Undefined
                | Inr (Value w) \<Rightarrow> w
                | _ \<Rightarrow> v)
           | _ \<Rightarrow> v)"

definition resultDiffers :: "env \<Rightarrow> modifiers \<Rightarrow> props \<Rightarrow> string \<Rightarrow> bool" where
  "resultDiffers E fieldMods ps storeFieldName =
     (let v = field ps storeFieldName; fieldName = fieldNameFromStoreName E storeFieldName in
      v \<noteq> Undefined
      \<and> (case modifierFor E fieldMods storeFieldName fieldName of
            Some DelModifier \<Rightarrow> True
          | Some (Modifier f) \<Rightarrow>
              (case f v fieldName storeFieldName of
                 Inr DELETE \<Rightarrow> True
               | Inr (Value w) \<Rightarrow> \<not> ident w v
               | _ \<Rightarrow> False)
          | _ \<Rightarrow> False))"

definition irregularCall :: "env \<Rightarrow> modifiers \<Rightarrow> props \<Rightarrow> string \<Rightarrow> bool" where
  "irregularCall E fieldMods ps storeFieldName =
     (let v = field ps storeFieldName; fieldName = fieldNameFromStoreName E storeFieldName in
      v \<noteq> Undefined
      \<and> (case modifierFor E fieldMods storeFieldName fieldName of
            Some (Inherited h) \<Rightarrow> True
          | Some (Modifier f) \<Rightarrow>
              (case f v fieldName storeFieldName of Inl e \<Rightarrow> True | Inr r \<Rightarrow> False)
          | _ \<Rightarrow> False))"



definition regularCalls :: "env \<Rightarrow> store \<Rightarrow> string \<Rightarrow> modifiers \<Rightarrow> bool" where
  "regularCalls E this dataId fieldMods =
     (case recordFields E this dataId of
        None \<Rightarrow> True
      | Some ps \<Rightarrow> list_all (\<lambda>k. \<not> irregularCall E fieldMods ps k) (keys ps))"

text \<open>
  A record none of whose fields with a defined value is named, by its store field name or
  by its bare field name, like a member of \<^verbatim>\<open>Object.prototype\<close>; and a chain of stores
  in which every record held for an id is such a record.
\<close>

definition plainRecord :: "env \<Rightarrow> props \<Rightarrow> bool" where
  "plainRecord E ps =
     list_all (\<lambda>k. field ps k = Undefined
                   \<or> (\<not> hasOwn (objectPrototype E) k
                      \<and> \<not> hasOwn (objectPrototype E) (fieldNameFromStoreName E k))) (keys ps)"



text \<open>
  No call of \<^verbatim>\<open>d.dirty\<close> among some calls; modifiers that can only delete.
\<close>

definition noDirty :: "event list \<Rightarrow> bool" where
  "noDirty evs = list_all (\<lambda>e. case e of Dirtied g k \<Rightarrow> False | _ \<Rightarrow> True) evs"

definition onlyDeletes :: "modifiers \<Rightarrow> bool" where
  "onlyDeletes ms = (case ms of Single m \<Rightarrow> m = DelModifier
                     | PerField fs \<Rightarrow> list_all (\<lambda>kv. snd kv = DelModifier) fs)"

text \<open>
  For garbage collection: a store with every memo of \<^verbatim>\<open>findChildRefIds\<close> erased, the data
  of the stores above the Root, the ids \<^verbatim>\<open>findChildRefIds\<close> returns, and the ids reachable
  from a set of roots where only the ids present in the snapshot are expanded.
\<close>

fun forgetRefs :: "store \<Rightarrow> store" where
  "forgetRefs (Root n) = Root (n\<lparr>refs := []\<rparr>)"
| "forgetRefs (Stump n p) = Stump (n\<lparr>refs := []\<rparr>) (forgetRefs p)"
| "forgetRefs (Layer l n p) = Layer l (n\<lparr>refs := []\<rparr>) (forgetRefs p)"

fun layerData :: "store \<Rightarrow> (string \<times> store_object option) list list" where
  "layerData (Root n) = []"
| "layerData (Stump n p) = data n # layerData p"
| "layerData (Layer l n p) = data n # layerData p"

definition childRefs :: "store \<Rightarrow> string \<Rightarrow> string list" where
  "childRefs this dataId = fst (findChildRefIds this dataId)"

inductive_set reachable :: "string set \<Rightarrow> (string \<Rightarrow> string list) \<Rightarrow> string set \<Rightarrow> string set"
  for roots :: "string set" and edges :: "string \<Rightarrow> string list" and present :: "string set" where
  root: "r \<in> roots \<Longrightarrow> r \<in> reachable roots edges present"
| step: "a \<in> reachable roots edges present \<Longrightarrow> a \<in> present \<Longrightarrow> b \<in> set (edges a)
          \<Longrightarrow> b \<in> reachable roots edges present"

text \<open>
  What \<^verbatim>\<open>root.delete(id)\<close> does to the data of the Root: the entity goes when its record
  has a field that is not undefined, and stays otherwise.
\<close>

definition hasDefinedField :: "(string \<times> store_object option) list \<Rightarrow> string \<Rightarrow> bool" where
  "hasDefinedField d dataId =
     (case entry d dataId of
        None \<Rightarrow> False
      | Some (a, ps) \<Rightarrow> list_ex (\<lambda>k. field ps k \<noteq> Undefined) (keys ps))"

definition purge ::
  "(string \<times> store_object option) list \<Rightarrow> string \<Rightarrow> (string \<times> store_object option) list" where
  "purge d dataId = (if hasDefinedField d dataId then AList.delete dataId d else d)"

section \<open>Basic facts\<close>

lemma ident_refl [simp]: "ident x x = (x \<noteq> NaN)"
  by (cases x) simp_all

lemma ident_Undefined [simp]: "ident Undefined x = (x = Undefined)" "ident x Undefined = (x = Undefined)"
  by (cases x; auto)+

lemma ident_sym: "ident x y = ident y x"
  by (cases x; cases y) auto

lemma not_Some_pair [simp]: "(\<forall>a b. x \<noteq> Some (a, b)) = (x = None)"
  by (cases x) auto




lemma hasOwn_delete: "hasOwn (AList.delete k t) f = (f \<noteq> k \<and> hasOwn t f)"
  by (simp add: hasOwn_def AList.delete_conv')

lemma hasOwn_keys: "hasOwn al i = (i \<in> set (keys al))"
  by (simp add: hasOwn_def keys_def map_of_eq_None_iff)

lemma keys_delete: "set (keys (AList.delete i al)) = set (keys al) - {i}"
  by (auto simp: keys_def AList.delete_eq)

lemma entry_update [simp]: "entry (AList.update i r d) i = r"
  by (simp add: entry_def AList.update_conv')

lemma list_all_update:
  "list_all P al \<Longrightarrow> P (k, v) \<Longrightarrow> list_all P (AList.update k v al)"
  by (induction al) auto

lemma map_of_foldl_update:
  "map_of (foldl (\<lambda>acc k. AList.update k (g k) acc) b ks) k
     = (if k \<in> set ks then Some (g k) else map_of b k)"
  by (induction ks arbitrary: b) (auto simp: AList.update_conv')

lemma map_of_spread:
  "map_of (spread b ov) k = (case map_of ov k of Some v \<Rightarrow> Some v | None \<Rightarrow> map_of b k)"
proof (cases "map_of ov k")
  case None
  then have "k \<notin> set (keys ov)" by (simp add: keys_def map_of_eq_None_iff)
  with None show ?thesis by (simp add: spread_def map_of_foldl_update)
next
  case (Some v)
  then have "k \<in> set (keys ov)" by (auto simp: keys_def dest: map_of_SomeD intro: rev_image_eqI)
  with Some show ?thesis by (simp add: spread_def map_of_foldl_update)
qed

lemma node_of_with_node [simp]: "node_of (with_node n s) = n"
  by (cases s) simp_all

lemma node_of_with_parent [simp]: "node_of (with_parent q s) = node_of s"
  by (cases s) simp_all

lemma isLayer_with_node [simp]: "isLayer (with_node n s) = isLayer s"
  by (cases s) simp_all

section \<open>The chain keeps its shape\<close>

lemma depth_with_node [simp]: "depth (with_node n s) = depth s"
  by (cases s) simp_all

lemma depth_mergeInto: "mergeInto E s fr i ex inc = (s', fr', evs) \<Longrightarrow> depth s' = depth s"
  by (auto simp: mergeInto_def Let_def split: prod.splits if_splits)

lemma depth_EntityStore_merge:
  "EntityStore_merge E s fr older newer = Inr (s', fr', evs) \<Longrightarrow> depth s' = depth s"
  by (auto simp: EntityStore_merge_def Let_def split: prod.splits option.splits dest: depth_mergeInto)

lemma depth_merge: "merge E s fr older newer = Inr (s', fr', evs) \<Longrightarrow> depth s' = depth s"
proof (induction s arbitrary: s' fr' evs)
  case (Root n)
  then show ?case by (simp add: depth_EntityStore_merge)
next
  case (Stump n p)
  then show ?case by (auto split: sum.splits)
next
  case (Layer i n p)
  then show ?case by (simp add: depth_EntityStore_merge)
qed

lemma depth_modify: "modify E s fr i ms = Inr (r, s', fr', evs) \<Longrightarrow> depth s' = depth s"
  by (auto simp: modify_def Let_def split: prod.splits option.splits sum.splits if_splits
      dest: depth_merge)

lemma depth_delete: "delete E s fr i f as = Inr (r, s', fr', evs) \<Longrightarrow> depth s' = depth s"
  by (auto simp: delete_def Let_def split: prod.splits option.splits sum.splits dest: depth_modify)

lemma depth_parentOf: "parentOf s = Some p \<Longrightarrow> depth p < depth s"
  by (cases s) auto

text \<open>
  With that, \<^verbatim>\<open>evict\<close> terminates: it descends from a store to the parent the store has
  after its own \<^verbatim>\<open>delete\<close>.
\<close>

termination evict
proof (relation "measure (\<lambda>(E, this, fresh, options). depth this)")
  show "wf (measure (\<lambda>(E, this, fresh, options). depth this))"
    by simp
next
  fix E :: env and this :: store and fresh :: addr and options :: evict_options
    and i :: string and r :: "bool \<times> store \<times> addr \<times> event list"
    and evicted1 :: bool and rest1 :: "store \<times> addr \<times> event list"
    and this1 :: store and rest2 :: "addr \<times> event list" and fresh1 :: addr
    and evs1 :: "event list" and p :: store
  assume res: "(if hasOwn (data (node_of this)) i
                then delete E this fresh i (evict_fieldName options) (evict_args options)
                else Inr (False, this, fresh, [])) = Inr r"
    and r: "(evicted1, rest1) = r" "(this1, rest2) = rest1" "(fresh1, evs1) = rest2"
    and par: "parentOf this1 = Some p"
  from res r have "depth this1 = depth this"
    by (auto split: if_splits dest: depth_delete)
  with par show "((E, p, fresh1, options), E, this, fresh, options)
                   \<in> measure (\<lambda>(E, this, fresh, options). depth this)"
    by (auto dest: depth_parentOf)
qed

declare evict.simps [simp del]

section \<open>Dependency keys\<close>

text \<open>
  C5.  In a dependency group with caching enabled, \<open>depend\<close> registers the composite key
  of the entity id and the store field name, then the key of the bare field name when the
  store field name differs from it, then whatever \<open>depend\<close> registers in the parent group
  when there is one; \<open>dirty\<close> invalidates the one composite key and nothing else.
\<close>

theorem depend_dirty_keys:
  "caching g \<Longrightarrow>
     depend fn g i sfn =
       Depended (gid g) (makeDepKey i sfn)
       # (if fn sfn \<noteq> sfn then [Depended (gid g) (makeDepKey i (fn sfn))] else [])
       @ (case parent g of None \<Rightarrow> [] | Some q \<Rightarrow> depend fn q i sfn)
     \<and> dirty g i sfn = [Dirtied (gid g) (makeDepKey i sfn)]"
  by (cases g) simp

theorem depend_dirty_keys_witness:
  "caching (CacheGroup 1 True (Some (CacheGroup 0 True None)))
   \<and> depend fieldNamePrefix (CacheGroup 1 True (Some (CacheGroup 0 True None))) ''Item:1'' ''f(x)''
       = [Depended 1 ''f(x)#Item:1'', Depended 1 ''f#Item:1'',
          Depended 0 ''f(x)#Item:1'', Depended 0 ''f#Item:1'']
   \<and> dirty (CacheGroup 1 True (Some (CacheGroup 0 True None))) ''Item:1'' ''f(x)''
       = [Dirtied 1 ''f(x)#Item:1'']"
  using depend_dirty_keys [of "CacheGroup 1 True (Some (CacheGroup 0 True None))" fieldNamePrefix
      "''Item:1''" "''f(x)''"]
  by (simp add: fieldNamePrefix_def identChar_def makeDepKey_def)

section \<open>Lookups and reads\<close>

lemma lookup_no_depend: "lookup E this fresh i False = (r, fr, evs) \<Longrightarrow> evs = []"
  by (induction this arbitrary: r fr evs) (auto simp: Let_def split: prod.splits option.splits if_splits)

lemma lookup_unresolved:
  "\<not> recordAnywhere this i \<Longrightarrow> \<not> hasOwn (rootTypenamesById (policies E)) i \<Longrightarrow>
     lookup E this fresh i False = (None, fresh, [])"
  by (induction this) (simp_all add: hasOwn_def Let_def)

lemma lookup_singleton:
  "\<not> keyAnywhere this i \<Longrightarrow> map_of (rootTypenamesById (policies E)) i = Some t \<Longrightarrow> t \<noteq> [] \<Longrightarrow>
     \<exists>evs. lookup E this fresh i d = (Some (fresh, []), Suc fresh, evs)"
  by (induction this) (auto simp: Let_def)

lemma lookup_toObject:
  "map_of (toObject s) i = Some r \<Longrightarrow> lookup E s fr i False = (r, fr, [])"
proof (induction s)
  case (Root n)
  then show ?case by (simp add: hasOwn_def entry_def)
next
  case (Stump n p)
  then show ?case by (auto simp: hasOwn_def entry_def map_of_spread split: option.splits)
next
  case (Layer l n p)
  then show ?case by (auto simp: hasOwn_def entry_def map_of_spread split: option.splits)
qed

section \<open>Usage errors and merges without effect\<close>

text \<open>
  C9.  A merge of two records, with no string id on either side, fails with the invariant
  error "store.merge expects a string ID" in every store; nothing is stored.
\<close>

theorem merge_two_records_fails:
  "merge E this fresh (Object older) (Object newer)
     = Inl (InvariantViolation ''store.merge expects a string ID'')"
  by (induction this) (simp_all add: EntityStore_merge_def)

lemma EntityStore_merge_unresolved:
  assumes "\<And>fr. lookup E this fr newer False = (None, fr, [])"
  shows "\<exists>fresh'. EntityStore_merge E this fresh older (Id newer) = Inr (this, fresh', [])"
proof (cases older)
  case (Id i)
  obtain r fr evs where l: "lookup E this fresh i False = (r, fr, evs)"
    by (cases "lookup E this fresh i False") auto
  then have "evs = []" by (rule lookup_no_depend)
  with l Id assms[of fr] show ?thesis
    by (simp add: EntityStore_merge_def)
next
  case (Object ob)
  with assms[of fresh] show ?thesis
    by (simp add: EntityStore_merge_def)
qed

text \<open>
  C10.  When \<open>newer\<close> is a string id for which no store of the chain holds a record and
  which is not a singleton root id, \<open>merge\<close> returns normally with the store unchanged
  (data, retained ids and reference memo alike) and without any dependency call, whether
  \<open>older\<close> is an id or a record.
\<close>

theorem merge_unresolved_id_no_effect:
  "\<not> recordAnywhere this newer \<Longrightarrow> \<not> hasOwn (rootTypenamesById (policies E)) newer \<Longrightarrow>
     \<exists>fresh'. merge E this fresh older (Id newer) = Inr (this, fresh', [])"
proof (induction this)
  case (Root n)
  then show ?case
    using EntityStore_merge_unresolved[of E "Root n" newer fresh older]
    by (simp add: lookup_unresolved del: lookup.simps)
next
  case (Stump n p)
  then have "\<not> recordAnywhere p newer" by simp
  with Stump show ?case by auto
next
  case (Layer l n p)
  then show ?case
    using EntityStore_merge_unresolved[of E "Layer l n p" newer fresh older]
    by (simp add: lookup_unresolved del: lookup.simps)
qed

theorem merge_unresolved_id_no_effect_witness:
  "\<not> recordAnywhere emptyCache ''Item:2''
   \<and> \<not> hasOwn (rootTypenamesById (policies stdEnv)) ''Item:2''
   \<and> (\<exists>fresh'. merge stdEnv emptyCache 1 (Object (0, [(''name'', Str ''a'')])) (Id ''Item:2'')
                  = Inr (emptyCache, fresh', []))"
  using merge_unresolved_id_no_effect [of emptyCache "''Item:2''" stdEnv 1
      "Object (0, [(''name'', Str ''a'')])"]
  by (simp add: emptyCache_def emptyRoot_def newStump_def emptyNode_def entry_def hasOwn_def
      stdEnv_def stdPolicies_def)

section \<open>Singleton roots\<close>

lemma lookup_shadowed:
  "\<not> recordAnywhere this i \<Longrightarrow> keyAnywhere this i \<Longrightarrow> fst (lookup E this fresh i d) = None"
  by (induction this) (auto simp: Let_def hasOwn_def entry_def split: prod.splits option.splits)

lemma get_default_typename:
  "\<not> recordAnywhere this i \<Longrightarrow> map_of (rootTypenamesById (policies E)) i = Some t \<Longrightarrow>
     fst (get E this i ''__typename'') = Str t"
  by (cases this) (auto simp: EntityStore_get_def Let_def split: prod.splits option.splits)

text \<open>
  C6, as stated, fails: a deletion in a Layer leaves an undefined shadow for the id, which
  is no record, and \<open>lookup\<close> returns what it finds under the first key it meets.  After
  the eviction of \<^verbatim>\<open>ROOT_QUERY\<close> from a Layer that held its only record, no store holds a
  record for it, \<open>lookup\<close> returns \<^verbatim>\<open>undefined\<close> and \<open>has\<close> is false.
\<close>

theorem singleton_root_shadow_counterexample:
  "evict stdEnv queryLayer 1 \<lparr>evict_id = Some ''ROOT_QUERY'', evict_fieldName = None, evict_args = None\<rparr>
     = Inr (True, shadowedQuery, 3,
            [Dirtied 1 ''__typename#ROOT_QUERY'',
             Dropped (Str ''Query'') (Obj 0 [(''__typename'', Str ''Query'')]) ''__typename'',
             Dirtied 1 ''__exists#ROOT_QUERY'', Dirtied 1 ''__exists#ROOT_QUERY''])
   \<and> \<not> recordAnywhere shadowedQuery ''ROOT_QUERY''
   \<and> hasOwn (rootTypenamesById (policies stdEnv)) ''ROOT_QUERY''
   \<and> fst (lookup stdEnv shadowedQuery 3 ''ROOT_QUERY'' True) = None
   \<and> \<not> fst (has stdEnv shadowedQuery 3 ''ROOT_QUERY'')"
  by code_simp

text \<open>
  C6, amended.  For a singleton root id (with a default typename, which is a non-empty
  string) for which no store of the chain holds a record, \<open>get\<close> of \<^verbatim>\<open>__typename\<close>
  returns the default typename of the table; \<open>lookup\<close> returns a new empty record, and
  \<open>has\<close> is true, exactly when no store of the chain has the id as a key, and \<open>lookup\<close>
  returns \<^verbatim>\<open>undefined\<close> when some store holds an undefined shadow for it.
\<close>

theorem singleton_root_resolves:
  assumes "map_of (rootTypenamesById (policies E)) i = Some t" "t \<noteq> []"
    and "\<not> recordAnywhere this i"
  shows "fst (lookup E this fresh i d) = (if keyAnywhere this i then None else Some (fresh, []))
     \<and> fst (has E this fresh i) = (\<not> keyAnywhere this i)
     \<and> fst (get E this i ''__typename'') = Str t"
proof (cases "keyAnywhere this i")
  case True
  with assms(3) have "fst (lookup E this fresh i d) = None" "fst (lookup E this fresh i True) = None"
    by (simp_all add: lookup_shadowed)
  with True assms show ?thesis
    by (auto simp: has_def get_default_typename split: prod.splits)
next
  case False
  with assms obtain evs where "lookup E this fresh i d = (Some (fresh, []), Suc fresh, evs)"
    using lookup_singleton by blast
  moreover from False assms obtain evs' where
    "lookup E this fresh i True = (Some (fresh, []), Suc fresh, evs')"
    using lookup_singleton by blast
  ultimately show ?thesis
    using False assms by (simp add: has_def get_default_typename)
qed

theorem singleton_root_resolves_witness:
  "map_of (rootTypenamesById (policies stdEnv)) ''ROOT_QUERY'' = Some ''Query''
   \<and> ''Query'' \<noteq> []
   \<and> \<not> recordAnywhere emptyCache ''ROOT_QUERY''
   \<and> fst (lookup stdEnv emptyCache 0 ''ROOT_QUERY'' False) = Some (0, [])
   \<and> fst (has stdEnv emptyCache 0 ''ROOT_QUERY'')
   \<and> fst (get stdEnv emptyCache ''ROOT_QUERY'' ''__typename'') = Str ''Query''"
  using singleton_root_resolves [of stdEnv "''ROOT_QUERY''" "''Query''" emptyCache 0 False]
  by (simp add: emptyCache_def emptyRoot_def newStump_def emptyNode_def hasOwn_def entry_def
      stdEnv_def stdPolicies_def)

section \<open>Operations that return normally\<close>

lemma mergeInto_group:
  "mergeInto E s fr i ex inc = (s', fr', evs) \<Longrightarrow> group (node_of s') = group (node_of s)"
  by (auto simp: mergeInto_def Let_def split: prod.splits if_splits)

lemma mergeInto_shape:
  "mergeInto E s fr i ex inc = (s', fr', evs) \<Longrightarrow> \<exists>n'. s' = with_node n' s"
  by (auto simp: mergeInto_def Let_def split: prod.splits if_splits)

lemma EntityStore_merge_Id:
  "\<exists>s' fr' evs. EntityStore_merge E s fr (Id i) newer = Inr (s', fr', evs)
      \<and> group (node_of s') = group (node_of s) \<and> isLayer s' = isLayer s"
  by (cases newer)
     (auto simp: EntityStore_merge_def mergeInto_def Let_def split: prod.splits option.splits)

lemma EntityStore_merge_shape:
  "EntityStore_merge E s fr older newer = Inr (s', fr', evs) \<Longrightarrow> \<exists>n'. s' = with_node n' s"
proof -
  assume a: "EntityStore_merge E s fr older newer = Inr (s', fr', evs)"
  have w: "s = with_node (node_of s) s" by (cases s) simp_all
  from a show ?thesis
    apply (simp add: EntityStore_merge_def Let_def split: prod.splits option.splits)
     apply (metis w)
    apply (metis mergeInto_shape)
    done
qed

lemma merge_Id:
  "\<exists>s' fr' evs. merge E s fr (Id i) newer = Inr (s', fr', evs)
      \<and> group (node_of s') = group (node_of s) \<and> isLayer s' = isLayer s"
proof (induction s)
  case (Root n)
  then show ?case using EntityStore_merge_Id[of E "Root n"] by simp
next
  case (Stump n p)
  then obtain p' fr' evs where "merge E p fr (Id i) newer = Inr (p', fr', evs)" by blast
  then show ?case by simp
next
  case (Layer l n p)
  then show ?case using EntityStore_merge_Id[of E "Layer l n p"] by simp
qed

text \<open>
  The loop of \<^verbatim>\<open>modify\<close>.  What \<open>lookup\<close> finds does not depend on the next free address;
  and as long as every call is the call of a modifier of the caller that returns, the
  loop ends normally, allocates nothing and leaves the two flags as the specification
  words them.
\<close>

lemma lookup_fields:
  "map_option snd (fst (lookup E s fr i d)) = map_option snd (fst (lookup E s fr2 i d2))"
  by (induction s) (auto simp: Let_def split: prod.splits option.splits)

lemma lookup_recordFields:
  "lookup E s fr i d = (so, fr', evs) \<Longrightarrow> recordFields E s i = map_option snd so"
  using lookup_fields[of E s fr i d 0 False] by (simp add: recordFields_def)

lemma modifierFor_onlyDeletes:
  "onlyDeletes ms \<Longrightarrow> modifierFor E ms sfn fn = Some m \<Longrightarrow> m = DelModifier \<or> (\<exists>h. m = Inherited h)"
  by (auto simp: onlyDeletes_def modifierFor_def fieldsMember_def list_all_iff
      split: modifiers.splits option.splits dest!: map_of_SomeD)

lemma modifyStep_own:
  assumes "\<not> irregularCall E ms ps k"
  shows "\<exists>acc'. modifyStep E g i ms ps acc k = Inr acc'
           \<and> nextAddr acc' = nextAddr acc
           \<and> needToMerge acc' = (needToMerge acc \<or> resultDiffers E ms ps k)
           \<and> allDeleted acc' = (allDeleted acc \<and> newValueOf E ms ps k = Undefined)
           \<and> (onlyDeletes ms \<longrightarrow> invalidated acc' = invalidated acc)"
proof (cases "field ps k = Undefined")
  case True
  then show ?thesis
    by (simp add: modifyStep_def resultDiffers_def newValueOf_def)
next
  case False
  show ?thesis
  proof (cases "modifierFor E ms k (fieldNameFromStoreName E k)")
    case None
    with False show ?thesis
      by (simp add: modifyStep_def resultDiffers_def newValueOf_def)
  next
    case (Some m)
    show ?thesis
    proof (cases m)
      case DelModifier
      with False Some show ?thesis
        by (simp add: modifyStep_def callModifier_def resultDiffers_def newValueOf_def)
    next
      case (Modifier f)
      with Some have "\<not> onlyDeletes ms"
        using modifierFor_onlyDeletes[of ms E k "fieldNameFromStoreName E k" m] by auto
      moreover from False Some Modifier assms obtain r where
        "f (field ps k) (fieldNameFromStoreName E k) k = Inr r"
        by (cases "f (field ps k) (fieldNameFromStoreName E k) k") (auto simp: irregularCall_def)
      ultimately show ?thesis
        using False Some Modifier
        by (auto simp: modifyStep_def callModifier_def resultDiffers_def newValueOf_def Let_def
            split: mod_result.splits)
    next
      case (Inherited h)
      with False Some assms show ?thesis by (simp add: irregularCall_def)
    qed
  qed
qed

lemma forEachKey_own:
  assumes "list_all (\<lambda>k. \<not> irregularCall E ms ps k) ks"
  shows "\<exists>acc'. forEachKey (modifyStep E g i ms ps) ks acc = Inr acc'
           \<and> nextAddr acc' = nextAddr acc
           \<and> needToMerge acc' = (needToMerge acc \<or> list_ex (resultDiffers E ms ps) ks)
           \<and> allDeleted acc' = (allDeleted acc \<and> list_all (\<lambda>k. newValueOf E ms ps k = Undefined) ks)
           \<and> (onlyDeletes ms \<longrightarrow> invalidated acc' = invalidated acc)"
  using assms
proof (induction ks arbitrary: acc)
  case Nil
  then show ?case by simp
next
  case (Cons k ks)
  then have k: "\<not> irregularCall E ms ps k" and ks: "list_all (\<lambda>k. \<not> irregularCall E ms ps k) ks"
    by simp_all
  from modifyStep_own[OF k, of g i acc] obtain acc1 where
    s: "modifyStep E g i ms ps acc k = Inr acc1"
    and p: "nextAddr acc1 = nextAddr acc"
      "needToMerge acc1 = (needToMerge acc \<or> resultDiffers E ms ps k)"
      "allDeleted acc1 = (allDeleted acc \<and> newValueOf E ms ps k = Undefined)"
      "onlyDeletes ms \<longrightarrow> invalidated acc1 = invalidated acc"
    by blast
  from Cons.IH[OF ks, of acc1] obtain acc' where
    r: "forEachKey (modifyStep E g i ms ps) ks acc1 = Inr acc'"
    and q: "nextAddr acc' = nextAddr acc1"
      "needToMerge acc' = (needToMerge acc1 \<or> list_ex (resultDiffers E ms ps) ks)"
      "allDeleted acc' = (allDeleted acc1 \<and> list_all (\<lambda>k. newValueOf E ms ps k = Undefined) ks)"
      "onlyDeletes ms \<longrightarrow> invalidated acc' = invalidated acc1"
    by blast
  from s r p q show ?case by auto
qed

lemma irregularCall_Single [simp]: "\<not> irregularCall E (Single DelModifier) ps k"
  by (simp add: irregularCall_def modifierFor_def)

lemma irregularCall_plain:
  "plainRecord E ps \<Longrightarrow> k \<in> set (keys ps) \<Longrightarrow> \<not> irregularCall E (PerField [(x, DelModifier)]) ps k"
  by (auto simp: plainRecord_def irregularCall_def modifierFor_def fieldsMember_def hasOwn_def
      list_all_iff Let_def split: option.splits if_splits)

lemma modify_ok:
  assumes "regularCalls E s i ms"
  shows "\<exists>r s' fr' evs. modify E s fr i ms = Inr (r, s', fr', evs)
           \<and> group (node_of s') = group (node_of s)"
proof -
  obtain so fr1 evs1 where l: "lookup E s fr i False = (so, fr1, evs1)"
    by (cases "lookup E s fr i False") auto
  show ?thesis
  proof (cases so)
    case None
    with l show ?thesis by (auto simp: modify_def)
  next
    case (Some ob)
    obtain a ps where ob: "ob = (a, ps)" by (cases ob)
    from l Some ob have "recordFields E s i = Some ps"
      by (simp add: lookup_recordFields)
    with assms have own: "list_all (\<lambda>k. \<not> irregularCall E ms ps k) (keys ps)"
      by (simp add: regularCalls_def)
    define acc0 where "acc0 = \<lparr>changedFields = [], needToMerge = False, allDeleted = True,
        invalidated = [], nextAddr = Suc fr1\<rparr>"
    from forEachKey_own[OF own, of "group (node_of s)" i acc0] obtain acc where
      loop: "forEachKey (modifyStep E (group (node_of s)) i ms ps) (keys ps) acc0 = Inr acc"
      by blast
    obtain s1 fr2 evs2 where
      m: "merge E s (nextAddr acc) (Id i) (Object (fr1, changedFields acc)) = Inr (s1, fr2, evs2)"
      and g: "group (node_of s1) = group (node_of s)"
      using merge_Id[of E s "nextAddr acc" i "Object (fr1, changedFields acc)"] by blast
    from l Some ob loop m g show ?thesis
      by (auto simp: modify_def Let_def acc0_def[symmetric])
  qed
qed

lemma delete_modify:
  assumes "lookup E s fr i False = (Some (a, ps), fr1, evs1)"
    and "getFieldValue E s (Obj a ps) ''__typename'' = (tn, evs2)"
  shows "\<exists>ms. (ms = Single DelModifier \<or> (given f \<and> (\<exists>x. ms = PerField [(x, DelModifier)])))
           \<and> delete E s fr i f as
               = (case modify E s fr1 i ms of
                    Inl e \<Rightarrow> Inl e
                  | Inr (r, s1, fr2, evs3) \<Rightarrow> Inr (r, s1, fr2, evs1 @ evs2 @ evs3))"
proof -
  define sfn where "sfn = (case as of
                  Some as \<Rightarrow>
                    if given f \<and> truthy as
                    then Some (getStoreFieldName (policies E) tn (the f) as)
                    else f
                | None \<Rightarrow> f)"
  define ms where "ms = (if given sfn then PerField [(the sfn, DelModifier)]
                         else Single DelModifier)"
  have gf: "given sfn \<Longrightarrow> given f"
    by (auto simp: sfn_def split: option.splits if_splits)
  have "delete E s fr i f as
          = (case modify E s fr1 i ms of
               Inl e \<Rightarrow> Inl e
             | Inr (r, s1, fr2, evs3) \<Rightarrow> Inr (r, s1, fr2, evs1 @ evs2 @ evs3))"
    using assms unfolding delete_def ms_def sfn_def by (simp add: Let_def)
  moreover have "ms = Single DelModifier \<or> (given f \<and> (\<exists>x. ms = PerField [(x, DelModifier)]))"
    using gf by (auto simp: ms_def)
  ultimately show ?thesis by blast
qed

lemma delete_ok:
  assumes "given f \<longrightarrow> (case recordFields E s i of None \<Rightarrow> True | Some ps \<Rightarrow> plainRecord E ps)"
  shows "\<exists>r s' fr' evs. delete E s fr i f as = Inr (r, s', fr', evs)
           \<and> group (node_of s') = group (node_of s)"
proof -
  obtain so fr1 evs1 where l: "lookup E s fr i False = (so, fr1, evs1)"
    by (cases "lookup E s fr i False") auto
  show ?thesis
  proof (cases so)
    case None
    with l show ?thesis by (auto simp: delete_def)
  next
    case (Some ob)
    obtain a ps where ob: "ob = (a, ps)" by (cases ob)
    from l Some ob have rf: "recordFields E s i = Some ps"
      by (simp add: lookup_recordFields)
    obtain tn evs2 where t: "getFieldValue E s (Obj a ps) ''__typename'' = (tn, evs2)"
      by (cases "getFieldValue E s (Obj a ps) ''__typename''") auto
    from l Some ob t obtain ms where
      ms: "ms = Single DelModifier \<or> (given f \<and> (\<exists>x. ms = PerField [(x, DelModifier)]))"
      and d: "delete E s fr i f as
               = (case modify E s fr1 i ms of
                    Inl e \<Rightarrow> Inl e
                  | Inr (r, s1, fr2, evs3) \<Rightarrow> Inr (r, s1, fr2, evs1 @ evs2 @ evs3))"
      using delete_modify[of E s fr i a ps fr1 evs1 tn evs2 f as] by blast
    have "regularCalls E s i ms"
      using ms assms rf
      by (auto simp: regularCalls_def list_all_iff irregularCall_plain)
    then obtain r s' fr' evs where m: "modify E s fr1 i ms = Inr (r, s', fr', evs)"
      and g: "group (node_of s') = group (node_of s)"
      using modify_ok[of E s i ms fr1] by blast
    from d m g show ?thesis by simp
  qed
qed

section \<open>The Stump holds no record\<close>

text \<open>
  The empty Stump holds none, and \<open>merge\<close>, \<open>modify\<close> and \<open>delete\<close> keep it so.
\<close>

lemma stumpEmpty_newStump: "stumpEmpty root \<Longrightarrow> stumpEmpty (newStump g root)"
  by (simp add: newStump_def emptyNode_def)

lemma stumpEmpty_merge:
  "merge E s fr older newer = Inr (s', fr', evs) \<Longrightarrow> stumpEmpty s \<Longrightarrow> stumpEmpty s'"
proof (induction s arbitrary: s' fr' evs)
  case (Root n)
  then show ?case using EntityStore_merge_shape[of E "Root n" fr older newer s' fr' evs] by auto
next
  case (Stump n p)
  then show ?case by (auto split: sum.splits)
next
  case (Layer l n p)
  then show ?case using EntityStore_merge_shape[of E "Layer l n p" fr older newer s' fr' evs] by auto
qed

lemma stumpEmpty_shadow:
  "stumpEmpty s \<Longrightarrow>
     stumpEmpty (with_node ((node_of s)\<lparr>data := AList.update i None (data (node_of s))\<rparr>) s)"
  by (cases s) (auto intro: list_all_update)

lemma stumpEmpty_remove:
  "\<not> isLayer s \<Longrightarrow>
     stumpEmpty (with_node ((node_of s)\<lparr>data := AList.delete i (data (node_of s))\<rparr>) s)"
  by (cases s) auto

lemma stumpEmpty_modify:
  "modify E s fr i ms = Inr (r, s', fr', evs) \<Longrightarrow> stumpEmpty s \<Longrightarrow> stumpEmpty s'"
  by (auto simp: modify_def Let_def split: prod.splits option.splits sum.splits if_splits
      dest!: stumpEmpty_merge intro: stumpEmpty_shadow stumpEmpty_remove)

lemma stumpEmpty_delete:
  "delete E s fr i f as = Inr (r, s', fr', evs) \<Longrightarrow> stumpEmpty s \<Longrightarrow> stumpEmpty s'"
  by (auto simp: delete_def Let_def split: prod.splits option.splits sum.splits
      dest: stumpEmpty_modify)

section \<open>Merging a record into itself\<close>

lemma foldl_mergeKey_self:
  "set ks \<subseteq> set (keys ps) \<Longrightarrow> \<forall>k \<in> set ks. field ps k \<noteq> NaN \<Longrightarrow>
     foldl (mergeKey r ps) (c, ps) ks = (c, ps)"
proof (induction ks)
  case Nil
  then show ?case by simp
next
  case (Cons k ks)
  then have "hasOwn ps k" "field ps k \<noteq> NaN"
    by (auto simp: hasOwn_def keys_def map_of_eq_None_iff)
  then have "mergeKey r ps (c, ps) k = (c, ps)" by (simp add: mergeKey_def)
  with Cons show ?case by simp
qed

lemma DeepMerger_merge_self:
  "noNaNField (snd ob) \<Longrightarrow> DeepMerger_merge r fr (Some ob) ob = (ob, fr)"
  by (cases ob) (simp add: DeepMerger_merge_def foldl_mergeKey_self noNaNField_def list_all_iff)

lemma mergeInto_self:
  "noNaNField (snd ob) \<Longrightarrow>
     mergeInto E this fr i (Some ob) ob
       = (with_node ((node_of this)\<lparr>data := AList.update i (Some ob) (data (node_of this))\<rparr>) this, fr, [])"
  by (cases ob) (simp add: mergeInto_def DeepMerger_merge_self differs_def Let_def)

lemma spread_update_triv:
  assumes "map_of (spread b ov) k = Some v"
  shows "spread b (AList.update k v ov) = spread b ov"
proof (cases "map_of ov k")
  case (Some w)
  with assms have "w = v" by (simp add: map_of_spread)
  with Some show ?thesis by (simp add: AList.update_triv)
next
  case None
  then have notin: "k \<notin> set (keys ov)" by (simp add: keys_def map_of_eq_None_iff)
  then have upd: "AList.update k v ov = ov @ [(k, v)]"
    unfolding keys_def by (induction ov) auto
  have "foldl (\<lambda>acc x. AList.update x (the (map_of (ov @ [(k, v)]) x)) acc) b (keys ov)
          = foldl (\<lambda>acc x. AList.update x (the (map_of ov x)) acc) b (keys ov)"
  proof (rule foldl_cong[OF refl refl])
    fix a x assume "x \<in> set (keys ov)"
    then have "map_of ov x \<noteq> None" by (simp add: keys_def map_of_eq_None_iff)
    then show "AList.update x (the (map_of (ov @ [(k, v)]) x)) a = AList.update x (the (map_of ov x)) a"
      by (auto simp: map_add_def split: option.splits)
  qed
  moreover have "map_of (ov @ [(k, v)]) k = Some v"
    using None by (simp add: map_add_def)
  ultimately have "spread b (ov @ [(k, v)]) = AList.update k v (spread b ov)"
    by (simp add: spread_def keys_def)
  with upd assms show ?thesis by (simp add: AList.update_triv)
qed

text \<open>
  When the store shows a record for an id, no field of the record is \<^verbatim>\<open>NaN\<close> and the
  Stump holds no record, merging that very record into the id makes no dependency call at
  all, so dirties nothing, and leaves \<open>toObject\<close> as it was.
\<close>

lemma merge_same_record:
  assumes "stumpEmpty this" "map_of (toObject this) i = Some (Some ob)" "noNaNField (snd ob)"
  shows "\<exists>this'. merge E this fresh (Id i) (Object ob) = Inr (this', fresh, [])
           \<and> toObject this' = toObject this"
  using assms(1,2)
proof (induction this)
  case (Root n)
  then show ?case
    using assms(3)
    by (simp add: EntityStore_merge_def lookup_toObject mergeInto_self AList.update_triv del: lookup.simps)
next
  case (Stump n p)
  have "map_of (data n) i = None"
  proof (cases "map_of (data n) i")
    case (Some r)
    then have "(i, r) \<in> set (data n)" by (rule map_of_SomeD)
    with Stump.prems(1) have "r = None" by (auto simp: list_all_iff)
    with Some Stump.prems(2) show ?thesis by (simp add: map_of_spread)
  qed simp
  with Stump.prems have "map_of (toObject p) i = Some (Some ob)" "stumpEmpty p"
    by (simp_all add: map_of_spread)
  with Stump.IH show ?case by auto
next
  case (Layer l n p)
  then show ?case
    using assms(3)
    by (simp add: EntityStore_merge_def lookup_toObject mergeInto_self spread_update_triv del: lookup.simps)
qed

text \<open>
  C2.  The claim is that merging the record an id has into the id dirties no dependency
  key and leaves \<open>toObject\<close> unchanged.  For a record with a field whose value is \<^verbatim>\<open>NaN\<close>
  the store does otherwise: \<^verbatim>\<open>NaN !== NaN\<close>, so the merger takes the field for changed,
  copies the record, and \<^verbatim>\<open>merge\<close> dirties the field and stores the copy, a new object,
  in place of the record.
\<close>

theorem merge_nan_record_dirties:
  "map_of (toObject nanRoot) ''Item:1'' = Some (Some (0, [(''score'', NaN)]))
   \<and> merge stdEnv nanRoot 1 (Id ''Item:1'') (Object (0, [(''score'', NaN)]))
       = Inr (Root \<lparr>data = [(''Item:1'', Some (1, [(''score'', NaN)]))], rootIds = [], refs = [],
                     group = CacheGroup 0 True None\<rparr>,
              2, [Dirtied 0 ''score#Item:1''])"
  by code_simp

section \<open>Referential stability of a merge\<close>






















section \<open>Modification\<close>


lemma fieldChanged_same [simp]: "\<not> fieldChanged E s s i"
  by (simp add: fieldChanged_def list_ex_iff)




section \<open>Eviction\<close>

lemma noDirty_simps [simp]:
  "noDirty []" "noDirty (xs @ ys) = (noDirty xs \<and> noDirty ys)"
  by (simp_all add: noDirty_def)

lemma depend_noDirty [simp]: "noDirty (depend fn g i f)"
  by (induction fn g i f rule: depend.induct) (auto simp: noDirty_def split: option.splits)

lemma EntityStore_get_noDirty:
  "(case vp of None \<Rightarrow> True | Some r \<Rightarrow> noDirty (snd r)) \<Longrightarrow>
     noDirty (snd (EntityStore_get E n vp i f))"
  by (auto simp: EntityStore_get_def Let_def split: option.splits prod.splits)

lemma get_noDirty [simp]: "noDirty (snd (get E s i f))"
  by (induction s) (simp_all add: EntityStore_get_noDirty)







lemma parentOf_with_node [simp]: "parentOf (with_node n s) = parentOf s"
  by (cases s) simp_all








text \<open>
  What \<^verbatim>\<open>modify\<close> finds in the object literal of \<^verbatim>\<open>delete\<close> for a field named like a
  member of \<^verbatim>\<open>Object.prototype\<close>: with a field \<^verbatim>\<open>valueOf\<close> beside the evicted one the
  eviction ends in a \<^verbatim>\<open>TypeError\<close>, and a field \<^verbatim>\<open>toString\<close> is overwritten with the
  string that the inherited function returns.  The theorems on \<open>modify\<close> and \<open>evict\<close>
  speak of the records without such fields.
\<close>

lemma evict_calls_inherited_member:
  "evict stdEnv valueOfRoot 1
       \<lparr>evict_id = Some ''Item:1'', evict_fieldName = Some ''name'', evict_args = None\<rparr>
     = Inl TypeError
   \<and> evict stdEnv toStringRoot 1
       \<lparr>evict_id = Some ''Item:1'', evict_fieldName = Some ''name'', evict_args = None\<rparr>
     = Inr (True,
            Root \<lparr>data = [(''Item:1'', Some (2, [(''toString'', Str ''[object Undefined]'')]))],
                  rootIds = [], refs = [], group = CacheGroup 0 True None\<rparr>,
            3, [Dirtied 0 ''name#Item:1'', Dirtied 0 ''toString#Item:1'',
                Dropped Undefined (Obj 0 [(''name'', Str ''a''), (''toString'', Num 1)]) ''name'',
                Dirtied 0 ''name#Item:1''])"
  by code_simp




section \<open>Garbage collection\<close>

text \<open>
  C3, as stated, fails in its second half: after the release the second \<open>gc\<close> removes
  nothing, because \<open>getRootIdSet\<close> adds every singleton root id at the Root whatever the
  retain counts are.
\<close>

theorem gc_scenario_counterexample: "removedIds scenarioAfterRelease = []"
  by code_simp

text \<open>
  C3, amended.  In the seeded Root, \<open>gc\<close> after \<open>retain\<close> of \<^verbatim>\<open>ROOT_QUERY\<close> returns the
  empty list, and \<open>release\<close> followed by \<open>gc\<close> returns the empty list as well; both
  entities stay in the Root.
\<close>

theorem gc_scenario:
  "scenarioAfterRetain = Inr ([], scenarioRoot [(''ROOT_QUERY'', 1)], 5, [])
   \<and> scenarioAfterRelease = Inr ([], scenarioRoot [], 5, [])"
  by code_simp

subsection \<open>What a collection does\<close>

text \<open>
  \<^verbatim>\<open>findChildRefIds\<close> writes memos only, and a memo it writes does not change what it
  returns later.
\<close>

lemma EntityStore_findChildRefIds_forget:
  "EntityStore_findChildRefIds n i = (found, n') \<Longrightarrow> n'\<lparr>refs := []\<rparr> = n\<lparr>refs := []\<rparr>"
  by (auto simp: EntityStore_findChildRefIds_def Let_def split: option.splits)

lemma EntityStore_findChildRefIds_data:
  "EntityStore_findChildRefIds n i = (found, n') \<Longrightarrow> data n' = data n"
  by (auto simp: EntityStore_findChildRefIds_def Let_def split: option.splits)

lemma EntityStore_findChildRefIds_stable:
  assumes "EntityStore_findChildRefIds n j = (found, n')"
  shows "fst (EntityStore_findChildRefIds n' i) = fst (EntityStore_findChildRefIds n i)"
proof (cases "map_of (refs n) j")
  case (Some m)
  with assms have "n' = n" by (simp add: EntityStore_findChildRefIds_def)
  then show ?thesis by simp
next
  case None
  with assms have n': "n' = n\<lparr>refs := AList.update j found (refs n)\<rparr>"
    and found: "found = scan [recordVal (entry (data n) j)] []"
    by (auto simp: EntityStore_findChildRefIds_def Let_def)
  show ?thesis
  proof (cases "i = j")
    case True
    with None n' found show ?thesis
      by (simp add: EntityStore_findChildRefIds_def Let_def AList.update_conv')
  next
    case False
    with n' show ?thesis
      by (simp add: EntityStore_findChildRefIds_def Let_def AList.update_conv' split: option.splits)
  qed
qed

lemma findChildRefIds_forget:
  "findChildRefIds s i = (found, s') \<Longrightarrow> forgetRefs s' = forgetRefs s"
  by (induction s arbitrary: found s')
     (auto simp: Let_def split: prod.splits if_splits dest: EntityStore_findChildRefIds_forget)

lemma findChildRefIds_stable:
  "findChildRefIds s j = (found, s') \<Longrightarrow> fst (findChildRefIds s' i) = fst (findChildRefIds s i)"
proof (induction s arbitrary: found s')
  case (Root n)
  obtain fo n' where n: "EntityStore_findChildRefIds n j = (fo, n')"
    by (cases "EntityStore_findChildRefIds n j")
  from EntityStore_findChildRefIds_stable[OF n, of i] Root.prems n show ?case
    by (auto simp: Let_def split: prod.splits)
next
  case (Stump n p)
  obtain fp p' where p: "findChildRefIds p j = (fp, p')" by (cases "findChildRefIds p j")
  obtain fo n' where n: "EntityStore_findChildRefIds n j = (fo, n')"
    by (cases "EntityStore_findChildRefIds n j")
  from Stump.IH[OF p] have ip: "fst (findChildRefIds p' i) = fst (findChildRefIds p i)" .
  from EntityStore_findChildRefIds_stable[OF n] EntityStore_findChildRefIds_data[OF n]
  have "fst (EntityStore_findChildRefIds n' i) = fst (EntityStore_findChildRefIds n i)"
    "data n' = data n" by simp_all
  with Stump.prems p n ip show ?case
    by (auto simp: Let_def split: prod.splits if_splits)
next
  case (Layer l n p)
  obtain fp p' where p: "findChildRefIds p j = (fp, p')" by (cases "findChildRefIds p j")
  obtain fo n' where n: "EntityStore_findChildRefIds n j = (fo, n')"
    by (cases "EntityStore_findChildRefIds n j")
  from Layer.IH[OF p] have ip: "fst (findChildRefIds p' i) = fst (findChildRefIds p i)" .
  from EntityStore_findChildRefIds_stable[OF n] EntityStore_findChildRefIds_data[OF n]
  have "fst (EntityStore_findChildRefIds n' i) = fst (EntityStore_findChildRefIds n i)"
    "data n' = data n" by simp_all
  with Layer.prems p n ip show ?case
    by (auto simp: Let_def split: prod.splits if_splits)
qed

lemma gcMark_forget:
  "gcMark s snapshot ids pos = (snapshot', s') \<Longrightarrow> forgetRefs s' = forgetRefs s"
proof (induction s snapshot ids pos arbitrary: snapshot' s' rule: gcMark.induct)
  case (1 this snapshot ids pos)
  show ?case
  proof (cases "pos < length ids")
    case False
    with "1.prems" show ?thesis by (subst (asm) gcMark.simps) simp
  next
    case True
    show ?thesis
    proof (cases "hasOwn snapshot (ids ! pos)")
      case False
      from "1.prems" True False have "gcMark this snapshot ids (Suc pos) = (snapshot', s')"
        by (subst (asm) gcMark.simps) simp
      with "1.IH"(2)[OF True refl False] show ?thesis by simp
    next
      case h: True
      obtain found this1 where f: "findChildRefIds this (ids ! pos) = (found, this1)"
        by (cases "findChildRefIds this (ids ! pos)")
      from True h f "1.prems" have
        "gcMark this1 (AList.delete (ids ! pos) snapshot) (addAll found ids) (Suc pos) = (snapshot', s')"
        by (subst (asm) gcMark.simps) simp
      from "1.IH"(1)[OF True refl h f[symmetric] refl this] findChildRefIds_forget[OF f]
      show ?thesis by simp
    qed
  qed
qed

lemma layerData_forgetRefs: "layerData (forgetRefs s) = layerData s"
  by (induction s) simp_all

lemma toObject_forgetRefs: "toObject (forgetRefs s) = toObject s"
  by (induction s) simp_all

lemma layerData_depth0: "depth r = 0 \<Longrightarrow> layerData r = []"
  by (cases r) simp_all

lemma layerData_withRoot: "depth r = 0 \<Longrightarrow> layerData (withRoot r s) = layerData s"
  by (induction s) (simp_all add: layerData_depth0)

lemma depth_rootOf [simp]: "depth (rootOf s) = 0"
  by (induction s) simp_all

lemma depth_deleteEntity:
  "deleteEntity E i s fr = Inr (s', fr', evs) \<Longrightarrow> depth s' = depth s"
  by (auto simp: deleteEntity_def split: sum.splits dest: depth_delete)

lemma depth_forEach_deleteEntity:
  "forEachStore (deleteEntity E) ids s fr = Inr (s', fr', evs) \<Longrightarrow> depth s' = depth s"
proof (induction ids arbitrary: s fr s' fr' evs)
  case Nil
  then show ?case by simp
next
  case (Cons i ids)
  from Cons.prems obtain s1 fr1 evs1 evs2 where
    d: "deleteEntity E i s fr = Inr (s1, fr1, evs1)"
    and r: "forEachStore (deleteEntity E) ids s1 fr1 = Inr (s', fr', evs2)"
    by (auto split: sum.splits)
  from Cons.IH[OF r] depth_deleteEntity[OF d] show ?case by simp
qed

lemma layerData_eq_forget: "forgetRefs s' = forgetRefs s \<Longrightarrow> layerData s' = layerData s"
  by (metis layerData_forgetRefs)

lemma rootData_forgetRefs: "data (node_of (rootOf (forgetRefs s))) = data (node_of (rootOf s))"
  by (induction s) simp_all

lemma rootOf_Root: "\<exists>n. rootOf s = Root n"
  by (induction s) simp_all

lemma rootOf_withRoot [simp]: "rootOf (withRoot (Root n) s) = Root n"
  by (induction s) simp_all

text \<open>
  The marking loop leaves in the snapshot exactly the ids that are not reachable.
\<close>

lemma addKey_prefix: "\<exists>zs. addKey k ids = ids @ zs"
  by (simp add: addKey_def)

lemma addAll_prefix: "\<exists>zs. addAll ks ids = ids @ zs"
proof (induction ks arbitrary: ids)
  case Nil
  then show ?case by (simp add: addAll_def)
next
  case (Cons k ks)
  obtain zs where "addKey k ids = ids @ zs" using addKey_prefix by blast
  moreover obtain ys where "addAll ks (addKey k ids) = addKey k ids @ ys" using Cons by blast
  ultimately show ?case by (simp add: addAll_def)
qed

lemma set_addAll: "set (addAll ks ids) = set ids \<union> set ks"
  by (induction ks arbitrary: ids) (auto simp: addAll_def addKey_def)

lemma distinct_addAll: "distinct ids \<Longrightarrow> distinct (addAll ks ids)"
  by (induction ks arbitrary: ids) (auto simp: addAll_def addKey_def)

lemma gcMark_unreachable:
  assumes "distinct ids" "pos \<le> length ids"
    and "\<And>i. fst (findChildRefIds this i) = edges i"
    and "set (keys snapshot) = present - set (take pos ids)"
    and "set ids \<subseteq> reachable roots edges present" "roots \<subseteq> set ids"
    and "\<And>j. j < pos \<Longrightarrow> ids ! j \<in> present \<Longrightarrow> set (edges (ids ! j)) \<subseteq> set ids"
  shows "set (keys (fst (gcMark this snapshot ids pos))) = present - reachable roots edges present"
  using assms
proof (induction this snapshot ids pos rule: gcMark.induct)
  case (1 this snapshot ids pos)
  show ?case
  proof (cases "pos < length ids")
    case False
    with "1.prems"(2) have pos: "pos = length ids" by simp
    have "reachable roots edges present \<subseteq> set ids"
    proof
      fix x assume "x \<in> reachable roots edges present"
      then show "x \<in> set ids"
      proof (induction rule: reachable.induct)
        case (root r)
        with "1.prems"(6) show ?case by auto
      next
        case (step a b)
        then obtain j where "j < length ids" "ids ! j = a" by (auto simp: in_set_conv_nth)
        with "1.prems"(7)[of j] pos step show ?case by auto
      qed
    qed
    with "1.prems"(5) have "set ids = reachable roots edges present" by auto
    with "1.prems"(4) pos False show ?thesis
      by (subst gcMark.simps) simp
  next
    case True
    define i where "i = ids ! pos"
    from True "1.prems"(1) have notin: "i \<notin> set (take pos ids)"
      by (auto simp: i_def in_set_conv_nth distinct_conv_nth)
    from True have tk: "set (take (Suc pos) ids) = insert i (set (take pos ids))"
      by (simp add: i_def take_Suc_conv_app_nth)
    from True have iin: "i \<in> set ids" by (simp add: i_def)
    show ?thesis
    proof (cases "hasOwn snapshot i")
      case False
      with "1.prems"(4) notin have np: "i \<notin> present" by (auto simp: hasOwn_keys)
      have nh: "\<not> hasOwn snapshot i" using False .
      have p2: "Suc pos \<le> length ids" using True by simp
      have p4: "set (keys snapshot) = present - set (take (Suc pos) ids)"
        using "1.prems"(4) tk np by auto
      have p7: "set (edges (ids ! j)) \<subseteq> set ids" if "j < Suc pos" "ids ! j \<in> present" for j
      proof -
        from that np have "j < pos" by (cases "j = pos") (auto simp: i_def)
        with "1.prems"(7)[of j] that show ?thesis by simp
      qed
      have "set (keys (fst (gcMark this snapshot ids (Suc pos))))
              = present - reachable roots edges present"
        using "1.IH"(2)[OF True i_def nh "1.prems"(1) p2 "1.prems"(3) p4 "1.prems"(5,6) p7] .
      with True False show ?thesis
        by (subst gcMark.simps) (simp add: i_def)
    next
      case h: True
      with "1.prems"(4) have ip: "i \<in> present" by (auto simp: hasOwn_keys)
      obtain found this1 where f: "findChildRefIds this i = (found, this1)"
        by (cases "findChildRefIds this i")
      with "1.prems"(3)[of i] have fe: "found = edges i" by simp
      obtain zs where zs: "addAll found ids = ids @ zs" using addAll_prefix by blast
      have p1: "distinct (addAll found ids)" using "1.prems"(1) by (rule distinct_addAll)
      have p2: "Suc pos \<le> length (addAll found ids)" using True zs by simp
      have p3: "fst (findChildRefIds this1 k) = edges k" for k
        using findChildRefIds_stable[OF f, of k] "1.prems"(3)[of k] by simp
      have p4: "set (keys (AList.delete i snapshot)) = present - set (take (Suc pos) (addAll found ids))"
        using "1.prems"(4) tk True zs by (auto simp: keys_delete)
      have p5: "set (addAll found ids) \<subseteq> reachable roots edges present"
      proof -
        from iin "1.prems"(5) have "i \<in> reachable roots edges present" by auto
        with ip fe have "set found \<subseteq> reachable roots edges present"
          by (auto intro: reachable.step)
        with "1.prems"(5) show ?thesis by (simp add: set_addAll)
      qed
      have p6: "roots \<subseteq> set (addAll found ids)" using "1.prems"(6) by (auto simp: set_addAll)
      have p7: "set (edges (addAll found ids ! j)) \<subseteq> set (addAll found ids)"
        if j: "j < Suc pos" "addAll found ids ! j \<in> present" for j
      proof -
        from j True zs have nth: "addAll found ids ! j = ids ! j" by (simp add: nth_append)
        show ?thesis
        proof (cases "j = pos")
          case True
          with nth fe show ?thesis by (simp add: i_def set_addAll)
        next
          case False
          with j have "j < pos" by simp
          with "1.prems"(7)[of j] j nth show ?thesis by (auto simp: set_addAll)
        qed
      qed
      have "set (keys (fst (gcMark this1 (AList.delete i snapshot) (addAll found ids) (Suc pos))))
              = present - reachable roots edges present"
        using "1.IH"(1)[OF True i_def h refl f[symmetric] p1 p2 p3 p4 p5 p6 p7] .
      with True h f show ?thesis
        by (subst gcMark.simps) (simp add: i_def)
    qed
  qed
qed

lemma distinct_getRootIdSet: "distinct ids \<Longrightarrow> distinct (getRootIdSet E s ids)"
  by (induction s arbitrary: ids) (simp_all add: distinct_addAll)

text \<open>
  The deletions in the Root.
\<close>

lemma mergeInto_data:
  "mergeInto E s fr i ex inc = (s', fr', evs) \<Longrightarrow>
     AList.delete i (data (node_of s')) = AList.delete i (data (node_of s))"
  by (auto simp: mergeInto_def Let_def AList.delete_update_same split: prod.splits if_splits)

lemma merge_Root_data:
  assumes "merge E (Root n) fr (Id i) (Object ob) = Inr (s', fr', evs)"
  shows "\<exists>n'. s' = Root n' \<and> AList.delete i (data n') = AList.delete i (data n)"
proof -
  obtain ex fr1 evs1 where l: "lookup E (Root n) fr i False = (ex, fr1, evs1)"
    by (cases "lookup E (Root n) fr i False") auto
  obtain s1 fr2 evs2 where mi: "mergeInto E (Root n) fr1 i ex ob = (s1, fr2, evs2)"
    by (cases "mergeInto E (Root n) fr1 i ex ob") auto
  with assms l have "s' = s1"
    by (simp add: EntityStore_merge_def del: lookup.simps)
  moreover from mergeInto_shape[OF mi] obtain n' where "s1 = Root n'" by auto
  ultimately show ?thesis using mergeInto_data[OF mi] by auto
qed

lemma delModifier_needToMerge:
  "list_ex (resultDiffers E (Single DelModifier) ps) ks
     = list_ex (\<lambda>k. field ps k \<noteq> Undefined) ks"
  by (induction ks) (auto simp: resultDiffers_def modifierFor_def Let_def)

lemma delModifier_allDeleted:
  "list_all (\<lambda>k. newValueOf E (Single DelModifier) ps k = Undefined) ks"
  by (induction ks) (auto simp: newValueOf_def modifierFor_def Let_def)

lemma lookup_Root_defined:
  "lookup E (Root n) fr i False = (so, fr1, evs1) \<Longrightarrow>
     (case so of None \<Rightarrow> False | Some (a, ps) \<Rightarrow> list_ex (\<lambda>k. field ps k \<noteq> Undefined) (keys ps))
       = hasDefinedField (data n) i"
  by (auto simp: hasDefinedField_def hasOwn_def entry_def keys_def Let_def
      split: option.splits if_splits)

lemma modify_Root_data:
  assumes "modify E (Root n) fr i (Single DelModifier) = Inr (r, s', fr', evs)"
  shows "\<exists>n'. s' = Root n' \<and> data n' = purge (data n) i"
proof -
  obtain so fr1 evs1 where l: "lookup E (Root n) fr i False = (so, fr1, evs1)"
    by (cases "lookup E (Root n) fr i False") auto
  note hd = lookup_Root_defined[OF l]
  show ?thesis
  proof (cases so)
    case None
    with l assms hd show ?thesis by (auto simp: modify_def purge_def)
  next
    case (Some ob)
    obtain a ps where ob: "ob = (a, ps)" by (cases ob)
    define acc0 where "acc0 = \<lparr>changedFields = [], needToMerge = False, allDeleted = True,
        invalidated = [], nextAddr = Suc fr1\<rparr>"
    have "list_all (\<lambda>k. \<not> irregularCall E (Single DelModifier) ps k) (keys ps)"
      by (simp add: list_all_iff)
    from forEachKey_own[OF this, of "group n" i acc0] obtain acc where
      loop: "forEachKey (modifyStep E (group n) i (Single DelModifier) ps) (keys ps) acc0 = Inr acc"
      and nm: "needToMerge acc = hasDefinedField (data n) i"
      and ad: "allDeleted acc"
      using hd Some ob
      by (auto simp: acc0_def delModifier_needToMerge delModifier_allDeleted)
    show ?thesis
    proof (cases "hasDefinedField (data n) i")
      case False
      with l Some ob assms nm loop show ?thesis
        by (auto simp: modify_def Let_def acc0_def[symmetric] purge_def)
    next
      case True
      with l Some ob assms nm ad loop obtain s1 fr2 evs2 where
        m: "merge E (Root n) (nextAddr acc) (Id i) (Object (fr1, changedFields acc)) = Inr (s1, fr2, evs2)"
        and s': "s' = with_node ((node_of s1)\<lparr>data := AList.delete i (data (node_of s1))\<rparr>) s1"
        using merge_Id[of E "Root n" "nextAddr acc" i "Object (fr1, changedFields acc)"]
        by (auto simp: modify_def Let_def acc0_def[symmetric] split: sum.splits)
      from merge_Root_data[OF m] s' True show ?thesis
        by (auto simp: purge_def)
    qed
  qed
qed

lemma deleteEntity_Root_data:
  assumes "deleteEntity E i (Root n) fr = Inr (s', fr', evs)"
  shows "\<exists>n'. s' = Root n' \<and> data n' = purge (data n) i"
proof -
  obtain so fr1 evs1 where l: "lookup E (Root n) fr i False = (so, fr1, evs1)"
    by (cases "lookup E (Root n) fr i False") auto
  note hd = lookup_Root_defined[OF l]
  show ?thesis
  proof (cases so)
    case None
    with l assms hd show ?thesis
      by (auto simp: deleteEntity_def delete_def purge_def simp del: lookup.simps)
  next
    case (Some ob)
    obtain a ps where ob: "ob = (a, ps)" by (cases ob)
    from l Some ob assms obtain r evs3 where
      "modify E (Root n) fr1 i (Single DelModifier) = Inr (r, s', fr', evs3)"
      by (auto simp: deleteEntity_def delete_def given_def Let_def
          split: sum.splits prod.splits simp del: lookup.simps)
    then show ?thesis by (rule modify_Root_data)
  qed
qed

lemma forEach_deleteEntity_Root_data:
  "forEachStore (deleteEntity E) ids (Root n) fr = Inr (s', fr', evs) \<Longrightarrow>
     \<exists>n'. s' = Root n' \<and> data n' = foldl purge (data n) ids"
proof (induction ids arbitrary: n fr s' fr' evs)
  case Nil
  then show ?case by auto
next
  case (Cons i ids)
  from Cons.prems obtain s1 fr1 evs1 evs2 where
    d: "deleteEntity E i (Root n) fr = Inr (s1, fr1, evs1)"
    and r: "forEachStore (deleteEntity E) ids s1 fr1 = Inr (s', fr', evs2)"
    by (auto split: sum.splits)
  from deleteEntity_Root_data[OF d] obtain n1 where n1: "s1 = Root n1" "data n1 = purge (data n) i"
    by blast
  with Cons.IH[of n1 fr1 s' fr' evs2] r show ?case by simp
qed

lemma purge_map_of:
  "map_of (purge d i) k = (if k = i \<and> hasDefinedField d i then None else map_of d k)"
  by (simp add: purge_def AList.delete_conv')

lemma purge_hasDefinedField:
  "hasDefinedField (purge d i) k = (hasDefinedField d k \<and> (k = i \<longrightarrow> \<not> hasDefinedField d i))"
  by (auto simp: purge_def hasDefinedField_def entry_def AList.delete_conv')

lemma foldl_purge_map_of:
  "map_of (foldl purge d ids) k
     = (if k \<in> set ids \<and> hasDefinedField d k then None else map_of d k)"
  by (induction ids arbitrary: d) (auto simp: purge_map_of purge_hasDefinedField)

text \<open>
  A collection always returns.
\<close>

lemma deleteEntity_ok: "\<exists>s' fr' evs. deleteEntity E i s fr = Inr (s', fr', evs)"
  using delete_ok[of None E s i fr None] by (auto simp: deleteEntity_def given_def)

lemma forEach_deleteEntity_ok:
  "\<exists>s' fr' evs. forEachStore (deleteEntity E) ids s fr = Inr (s', fr', evs)"
proof (induction ids arbitrary: s fr)
  case Nil
  show ?case by simp
next
  case (Cons i ids)
  obtain s1 fr1 evs1 where d: "deleteEntity E i s fr = Inr (s1, fr1, evs1)"
    using deleteEntity_ok by blast
  obtain s2 fr2 evs2 where "forEachStore (deleteEntity E) ids s1 fr1 = Inr (s2, fr2, evs2)"
    using Cons.IH by blast
  with d show ?case by simp
qed

theorem gc_returns: "\<exists>removed this' fresh' evs. gc E this fresh = Inr (removed, this', fresh', evs)"
proof -
  obtain snapshot1 this1 where
    m: "gcMark this (toObject this) (getRootIdSet E this []) 0 = (snapshot1, this1)"
    by (cases "gcMark this (toObject this) (getRootIdSet E this []) 0")
  obtain s' fr' evs where
    "forEachStore (deleteEntity E) (keys snapshot1) (rootOf this1) fresh = Inr (s', fr', evs)"
    using forEach_deleteEntity_ok by blast
  with m show ?thesis by (simp add: gc_def)
qed

text \<open>
  What it returns: a collection invoked on any store of the chain leaves the data of every
  store above the Root as it was; the list it returns holds exactly the ids of the snapshot
  that are not reachable from the root id set; and in the Root a returned id is gone if
  its record had a field that was not undefined, while every other entry of the Root is
  untouched.
\<close>

theorem gc_writes_root_only:
  assumes "gc E this fresh = Inr (removed, this', fresh', evs)"
  shows "layerData this' = layerData this"
proof -
  obtain snapshot1 this1 where
    m: "gcMark this (toObject this) (getRootIdSet E this []) 0 = (snapshot1, this1)"
    by (cases "gcMark this (toObject this) (getRootIdSet E this []) 0")
  with assms obtain root1 where
    d: "forEachStore (deleteEntity E) (keys snapshot1) (rootOf this1) fresh = Inr (root1, fresh', evs)"
    and t: "this' = withRoot root1 this1"
    by (auto simp: gc_def Let_def split: sum.splits)
  from depth_forEach_deleteEntity[OF d] have "depth root1 = 0" by simp
  with t have "layerData this' = layerData this1" by (simp add: layerData_withRoot)
  also from gcMark_forget[OF m] have "layerData this1 = layerData this"
    by (rule layerData_eq_forget)
  finally show ?thesis .
qed

theorem gc_returns_unreachable:
  assumes "gc E this fresh = Inr (removed, this', fresh', evs)"
  shows "set removed
           = set (keys (toObject this))
             - reachable (set (getRootIdSet E this [])) (childRefs this) (set (keys (toObject this)))"
proof -
  obtain snapshot1 this1 where
    m: "gcMark this (toObject this) (getRootIdSet E this []) 0 = (snapshot1, this1)"
    by (cases "gcMark this (toObject this) (getRootIdSet E this []) 0")
  with assms have r: "removed = keys snapshot1"
    by (auto simp: gc_def Let_def split: sum.splits)
  have "set (keys (fst (gcMark this (toObject this) (getRootIdSet E this []) 0)))
          = set (keys (toObject this))
            - reachable (set (getRootIdSet E this [])) (childRefs this) (set (keys (toObject this)))"
    by (rule gcMark_unreachable)
       (auto simp: distinct_getRootIdSet childRefs_def intro: reachable.root)
  with m r show ?thesis by simp
qed

theorem gc_collects:
  assumes "gc E this fresh = Inr (removed, this', fresh', evs)"
  shows "layerData this' = layerData this"
    and "set removed
           = set (keys (toObject this))
             - reachable (set (getRootIdSet E this [])) (childRefs this) (set (keys (toObject this)))"
    and "map_of (data (node_of (rootOf this'))) k
           = (if k \<in> set removed \<and> hasDefinedField (data (node_of (rootOf this))) k then None
              else map_of (data (node_of (rootOf this))) k)"
proof -
  show "layerData this' = layerData this"
    using assms by (rule gc_writes_root_only)
  show "set removed
           = set (keys (toObject this))
             - reachable (set (getRootIdSet E this [])) (childRefs this) (set (keys (toObject this)))"
    using assms by (rule gc_returns_unreachable)
  obtain snapshot1 this1 where
    m: "gcMark this (toObject this) (getRootIdSet E this []) 0 = (snapshot1, this1)"
    by (cases "gcMark this (toObject this) (getRootIdSet E this []) 0")
  with assms obtain root1 where
    d: "forEachStore (deleteEntity E) removed (rootOf this1) fresh = Inr (root1, fresh', evs)"
    and t: "this' = withRoot root1 this1"
    by (auto simp: gc_def Let_def split: sum.splits)
  obtain n1 where n1: "rootOf this1 = Root n1" using rootOf_Root by blast
  from d n1 obtain n' where n': "root1 = Root n'" "data n' = foldl purge (data n1) removed"
    using forEach_deleteEntity_Root_data[of E removed n1 fresh root1 fresh' evs] by auto
  from gcMark_forget[OF m] have "data (node_of (rootOf this1)) = data (node_of (rootOf this))"
    by (metis rootData_forgetRefs)
  with n1 n' t show "map_of (data (node_of (rootOf this'))) k
           = (if k \<in> set removed \<and> hasDefinedField (data (node_of (rootOf this))) k then None
              else map_of (data (node_of (rootOf this))) k)"
    by (simp add: foldl_purge_map_of)
qed

text \<open>
  C4.  A Root that holds an empty record for an id that no root reaches.  \<open>gc\<close> returns
  the id as removed, but \<^verbatim>\<open>root.delete\<close> goes through \<^verbatim>\<open>modify\<close>, which finds no field to
  change and removes nothing: the record is still in the Root after the collection.
\<close>

theorem gc_keeps_empty_record:
  "gc stdEnv emptyRecordRoot 1 = Inr ([''Item:1''], emptyRecordRoot, 2, [])"
  by code_simp

end
